theory Spec2Isabelle
  imports Complex_Main "HOL-Library.Multiset" "HOL-Library.Char_ord" "HOL-Library.List_Lexorder"
begin

chapter \<open>Model\<close>

section \<open>Data model (package types)\<close>

text \<open>
  Go's \<open>int64\<close> values are represented by the integer they denote; a value of that
  type always lies in the range checked by \<open>in_int64\<close>. The only arithmetic the
  modelled code performs on them is comparison and the increment of a counter, whose
  wrap-around is written out where it occurs.
\<close>

type_synonym int64 = int

definition in_int64 :: "int \<Rightarrow> bool" where
  "in_int64 v = (- (2 ^ 63) \<le> v \<and> v < 2 ^ 63)"

text \<open>
  \<open>type DataType int\<close> with the constants \<open>Int\<close>, \<open>Float\<close>, \<open>String\<close>
  (suffixed here: \<open>Int\<close> is HOL's ASCII notation for intersection).
\<close>

datatype DataType = IntType | FloatType | StringType

text \<open>
  \<open>type Comparator int\<close> with the constants \<open>Eq\<close> \dots \<open>Neq\<close>; any other
  integer is a \<open>Comparator\<close> too and reaches the \<open>default\<close> branches.
\<close>

datatype Comparator = Eq | Lt | Gt | Lte | Gte | Neq | ComparatorOther int

text \<open>\<open>type AggregateType int\<close> with the constants \<open>Count\<close>, \<open>Sum\<close>, \<open>Min\<close>, \<open>Max\<close>,
  \<open>Avg\<close> (\<open>Min\<close> and \<open>Max\<close> carry a suffix here).\<close>

datatype AggregateType = Count | Sum | MinAgg | MaxAgg | Avg | AggregateOther int

text \<open>
  A row value is an \<open>interface{}\<close> holding an \<open>int64\<close>, a \<open>float64\<close>, a
  \<open>string\<close> or \<open>nil\<close>. A \<open>float64\<close> is represented by the real number it
  denotes (NaN and the infinities are outside the model).
\<close>

datatype Value = VInt int64 | VFloat real | VString string | VNil

type_synonym Row = "Value list"

record Schema =
  Columns :: "string list"
  Types :: "DataType list"

section \<open>The standard library the code calls\<close>

text \<open>
  Errors are values. \<open>EOF\<close> is \<open>io.EOF\<close>, \<open>ErrFieldCount\<close> is the csv reader's
  "wrong number of fields", \<open>ErrClosed\<close> is \<open>os.ErrClosed\<close> ("file already closed"),
  \<open>ErrNotExist\<close> is returned for a missing path, \<open>ErrSyntax\<close> and \<open>ErrRange\<close> are
  strconv's, \<open>Failure\<close> is any error an upstream operator reports, \<open>Wrap\<close> is
  \<open>fmt.Errorf("...: %w", err)\<close>, and \<open>Panic\<close> is a run-time panic (index out of
  range, nil dereference).
\<close>

datatype error = EOF | ErrFieldCount | ErrClosed | ErrNotExist | ErrSyntax | ErrRange
  | Failure string | Wrap string error | Panic string

text \<open>
  The library functions whose bodies are not modelled are parameters, collected in one
  record: \<open>strconv.ParseFloat(s, 64)\<close> (\<open>None\<close> for an error),
  \<open>strconv.FormatFloat(v, 'f', -1, 64)\<close>, the \<open>%v\<close> rendering of a \<open>float64\<close>,
  \<open>sort.Slice\<close> (given the element comparison its \<open>less\<close> closure makes), and the
  rounding of a real number to the nearest \<open>float64\<close>, through which every
  floating-point operation of the code is written.
\<close>

record stdlib =
  ParseFloat :: "string \<Rightarrow> real option"
  FormatFloat :: "real \<Rightarrow> string"
  Sprint_float :: "real \<Rightarrow> string"
  sort_Slice :: "(Row \<Rightarrow> Row \<Rightarrow> bool) \<Rightarrow> Row list \<Rightarrow> Row list"
  round64 :: "real \<Rightarrow> real"

subsection \<open>strconv.ParseInt(s, 10, 64) and strconv.FormatInt(v, 10)\<close>

definition digit_of :: "char \<Rightarrow> nat option" where
  "digit_of c = (if 48 \<le> (of_char c :: nat) \<and> (of_char c :: nat) \<le> 57
                 then Some (of_char c - 48) else None)"

fun decimal :: "string \<Rightarrow> nat \<Rightarrow> nat option" where
  "decimal [] acc = Some acc"
| "decimal (c # cs) acc =
     (case digit_of c of None \<Rightarrow> None | Some d \<Rightarrow> decimal cs (10 * acc + d))"

text \<open>
  \<open>ParseUint\<close> in base 10 and 64 bits: the empty string and any character that is
  not a decimal digit are syntax errors, a value of \<open>2 ^ 64\<close> or more is a range
  error.
\<close>

definition ParseUint :: "string \<Rightarrow> error + nat" where
  "ParseUint s =
     (if s = [] then Inl ErrSyntax
      else case decimal s 0 of
             None \<Rightarrow> Inl ErrSyntax
           | Some n \<Rightarrow> if n < 2 ^ 64 then Inr n else Inl ErrRange)"

text \<open>
  \<open>ParseInt\<close>: an optional sign, then \<open>ParseUint\<close>; the magnitude must be below
  \<open>2 ^ 63\<close>, or at most \<open>2 ^ 63\<close> after a minus sign. The callers only test
  \<open>err == nil\<close>, so the result is the value or the error.
\<close>

definition ParseInt :: "string \<Rightarrow> error + int64" where
  "ParseInt s =
     (case s of
        [] \<Rightarrow> Inl ErrSyntax
      | c # cs \<Rightarrow>
          (let neg = (c = CHR ''-'');
               body = (if c = CHR ''+'' \<or> c = CHR ''-'' then cs else s)
           in case ParseUint body of
                Inl ErrRange \<Rightarrow> Inl ErrRange
              | Inl e \<Rightarrow> Inl e
              | Inr un \<Rightarrow>
                  if \<not> neg \<and> un \<ge> 2 ^ 63 then Inl ErrRange
                  else if neg \<and> un > 2 ^ 63 then Inl ErrRange
                  else Inr (if neg then - int un else int un)))"

definition digit_char :: "nat \<Rightarrow> char" where
  "digit_char d = ''0123456789'' ! d"

fun digits :: "nat \<Rightarrow> string" where
  "digits n = (if n < 10 then [digit_char n] else digits (n div 10) @ [digit_char (n mod 10)])"

declare digits.simps [simp del]

definition FormatInt :: "int64 \<Rightarrow> string" where
  "FormatInt v = (if v < 0 then CHR ''-'' # digits (nat (- v)) else digits (nat v))"

subsection \<open>encoding/csv and os\<close>

text \<open>
  A csv file is the list of records its text tokenises to; the text layer (quoting,
  line ends) is not modelled. A \<open>csv.Reader\<close> holds the records still to be read and
  \<open>FieldsPerRecord\<close>: \<open>csv.NewReader\<close> sets it to 0, the first \<open>Read\<close> then sets it
  to the number of fields of the first record, and every later record with another
  number of fields is reported as \<open>ErrFieldCount\<close>.
\<close>

type_synonym csv_data = "string list list"

record csv_Reader =
  pending :: csv_data
  FieldsPerRecord :: int

definition csv_NewReader :: "csv_data \<Rightarrow> csv_Reader" where
  "csv_NewReader d = \<lparr>pending = d, FieldsPerRecord = 0\<rparr>"

definition csv_Read :: "csv_Reader \<Rightarrow> (error + string list) \<times> csv_Reader" where
  "csv_Read r =
     (case pending r of
        [] \<Rightarrow> (Inl EOF, r)
      | rec # rest \<Rightarrow>
          (let r' = r\<lparr>pending := rest\<rparr>
           in if FieldsPerRecord r > 0
              then (if int (length rec) \<noteq> FieldsPerRecord r then (Inl ErrFieldCount, r')
                    else (Inr rec, r'))
              else if FieldsPerRecord r = 0
              then (Inr rec, r'\<lparr>FieldsPerRecord := int (length rec)\<rparr>)
              else (Inr rec, r')))"

text \<open>
  What a \<open>csv.Reader\<close> reads back from the text that a \<open>csv.Writer\<close> wrote for the
  given records, both with their default settings. A record with no field, or with
  one empty field, is written as an empty line, and the reader skips empty lines.
  Inside a quoted field the reader drops a carriage return that stands before a line
  feed. Every other record comes back as it was written.
\<close>

fun strip_cr :: "string \<Rightarrow> string" where
  "strip_cr (c # d # cs) =
     (if c = CHR 0x0D \<and> d = CHR 0x0A then d # strip_cr cs else c # strip_cr (d # cs))"
| "strip_cr cs = cs"

definition csv_text :: "csv_data \<Rightarrow> csv_data" where
  "csv_text recs = map (map strip_cr) (filter (\<lambda>rc. rc \<noteq> [] \<and> rc \<noteq> [[]]) recs)"

text \<open>
  The part of the operating system the operators touch: the csv files by path, the
  temporary files of \<open>os.CreateTemp\<close> by the number that makes their name unique, and
  the descriptors of the open \<open>os.File\<close> values. Disk operations do not fail in the
  model other than by a missing path; \<open>File.Close\<close> on a closed file returns
  \<open>ErrClosed\<close> and \<open>os.Remove\<close> of a missing file returns \<open>ErrNotExist\<close>, as the
  library documents.
\<close>

datatype path = Path string | TempPath nat

record world =
  disk :: "path \<rightharpoonup> csv_data"
  open_files :: "nat set"
  next_file :: nat
  next_temp :: nat

definition os_Open :: "path \<Rightarrow> world \<Rightarrow> (error + nat \<times> csv_data) \<times> world" where
  "os_Open p w =
     (case disk w p of
        None \<Rightarrow> (Inl ErrNotExist, w)
      | Some d \<Rightarrow> (Inr (next_file w, d),
                   w\<lparr>open_files := insert (next_file w) (open_files w),
                      next_file := Suc (next_file w)\<rparr>))"

definition File_Close :: "nat \<Rightarrow> world \<Rightarrow> error option \<times> world" where
  "File_Close f w =
     (if f \<in> open_files w then (None, w\<lparr>open_files := open_files w - {f}\<rparr>)
      else (Some ErrClosed, w))"

definition os_Remove :: "path \<Rightarrow> world \<Rightarrow> error option \<times> world" where
  "os_Remove p w =
     (if p \<in> dom (disk w) then (None, w\<lparr>disk := (disk w)(p := None)\<rparr>)
      else (Some ErrNotExist, w))"

section \<open>Scan (operators/scan.go)\<close>

record CSVScan =
  reader :: csv_Reader
  scan_file :: "nat option"
  scan_schema :: Schema
  firstRow :: "string list option"
  firstRowReturned :: bool

definition inferType :: "stdlib \<Rightarrow> string \<Rightarrow> DataType" where
  "inferType L val =
     (if val = [] then StringType
      else case ParseInt val of
             Inr _ \<Rightarrow> IntType
           | Inl _ \<Rightarrow> (case ParseFloat L val of Some _ \<Rightarrow> FloatType | None \<Rightarrow> StringType))"

definition parseValue :: "stdlib \<Rightarrow> string \<Rightarrow> DataType \<Rightarrow> Value" where
  "parseValue L val dt =
     (case dt of
        IntType \<Rightarrow> (case ParseInt val of Inr v \<Rightarrow> VInt v | Inl _ \<Rightarrow> VInt 0)
      | FloatType \<Rightarrow> (case ParseFloat L val of Some v \<Rightarrow> VFloat v | None \<Rightarrow> VFloat 0)
      | StringType \<Rightarrow> VString val)"

text \<open>
  The loop that fills \<open>values\<close> in \<open>CSVScan.Next\<close> (and in \<open>SortOp.recordToRow\<close>):
  field \<open>i\<close> is parsed with the schema's type \<open>i\<close>, a field beyond the schema is kept
  as a string.
\<close>

definition parse_fields :: "stdlib \<Rightarrow> DataType list \<Rightarrow> string list \<Rightarrow> Row" where
  "parse_fields L tys rec =
     map (\<lambda>(i, val). if i < length tys then parseValue L val (tys ! i) else VString val)
       (enumerate 0 rec)"

text \<open>
  \<open>NewCSVScan\<close>. \<open>colTypes\<close> is made with the length of the header, filled with the
  zero value \<open>Int\<close>, and overwritten at the index of every field of the first row.
\<close>

definition NewCSVScan :: "stdlib \<Rightarrow> string \<Rightarrow> world \<Rightarrow> (error + CSVScan) \<times> world" where
  "NewCSVScan L filePath w =
     (case os_Open (Path filePath) w of
        (Inl e, w1) \<Rightarrow> (Inl (Wrap ''failed to open CSV file'' e), w1)
      | (Inr (f, d), w1) \<Rightarrow>
          (case csv_Read (csv_NewReader d) of
             (Inl e, r1) \<Rightarrow> (Inl (Wrap ''failed to read CSV header'' e), snd (File_Close f w1))
           | (Inr header, r1) \<Rightarrow>
               (case csv_Read r1 of
                  (Inl EOF, r2) \<Rightarrow>
                    (Inr \<lparr>reader = r2, scan_file = Some f,
                          scan_schema = \<lparr>Columns = header,
                                          Types = replicate (length header) StringType\<rparr>,
                          firstRow = None, firstRowReturned = False\<rparr>, w1)
                | (Inl e, r2) \<Rightarrow>
                    (Inl (Wrap ''failed to read first data row'' e), snd (File_Close f w1))
                | (Inr fr, r2) \<Rightarrow>
                    if length fr > length header
                    then (Inl (Panic ''index out of range''), w1)
                    else (Inr \<lparr>reader = r2, scan_file = Some f,
                               scan_schema = \<lparr>Columns = header,
                                   Types = map (inferType L) fr
                                           @ replicate (length header - length fr) IntType\<rparr>,
                               firstRow = Some fr, firstRowReturned = False\<rparr>, w1))))"

definition CSVScan_Next :: "stdlib \<Rightarrow> CSVScan \<Rightarrow> (error + Row option) \<times> CSVScan" where
  "CSVScan_Next L s =
     (if \<not> firstRowReturned s \<and> firstRow s \<noteq> None
      then (Inr (Some (parse_fields L (Types (scan_schema s)) (the (firstRow s)))),
            s\<lparr>firstRowReturned := True\<rparr>)
      else case csv_Read (reader s) of
             (Inl EOF, r') \<Rightarrow> (Inr None, s\<lparr>reader := r'\<rparr>)
           | (Inl e, r') \<Rightarrow> (Inl (Wrap ''error reading CSV row'' e), s\<lparr>reader := r'\<rparr>)
           | (Inr rec, r') \<Rightarrow>
               (Inr (Some (parse_fields L (Types (scan_schema s)) rec)), s\<lparr>reader := r'\<rparr>))"

definition CSVScan_Close :: "CSVScan \<Rightarrow> world \<Rightarrow> error option \<times> world" where
  "CSVScan_Close s w = (case scan_file s of Some f \<Rightarrow> File_Close f w | None \<Rightarrow> (None, w))"

section \<open>Zone maps (package metadata)\<close>

record ZoneMap =
  Filename :: string
  RowCount :: int64
  MinValues :: "string \<rightharpoonup> int64"
  MaxValues :: "string \<rightharpoonup> int64"

text \<open>
  \<open>ZoneMap.CanPrune\<close>. A lookup in a Go map yields the value and whether the key
  is present; both lookups are made before the test.
\<close>

definition CanPrune :: "ZoneMap \<Rightarrow> string \<Rightarrow> Comparator \<Rightarrow> int64 \<Rightarrow> bool" where
  "CanPrune zm columnName cmp v =
     (let (mn, hasMin) = (case MinValues zm columnName of Some m \<Rightarrow> (m, True) | None \<Rightarrow> (0, False));
          (mx, hasMax) = (case MaxValues zm columnName of Some m \<Rightarrow> (m, True) | None \<Rightarrow> (0, False))
      in if \<not> hasMin \<or> \<not> hasMax then False
         else (case cmp of
                 Eq \<Rightarrow> v < mn \<or> v > mx
               | Lt \<Rightarrow> mn \<ge> v
               | Lte \<Rightarrow> mn > v
               | Gt \<Rightarrow> mx \<le> v
               | Gte \<Rightarrow> mx < v
               | Neq \<Rightarrow> mn = mx \<and> mn = v
               | ComparatorOther _ \<Rightarrow> False))"

text \<open>
  \<open>GenerateZoneMap\<close>. The four maps of the function are the fields of the loop
  state; reading a missing key of a Go map yields the zero value.
\<close>

record zm_state =
  minValues :: "string \<rightharpoonup> int64"
  maxValues :: "string \<rightharpoonup> int64"
  initialized :: "string \<rightharpoonup> bool"
  isIntColumn :: "string \<rightharpoonup> bool"

definition zm_init :: zm_state where
  "zm_init = \<lparr>minValues = Map.empty, maxValues = Map.empty, initialized = Map.empty,
              isIntColumn = Map.empty\<rparr>"

definition lookup0 :: "(string \<rightharpoonup> int64) \<Rightarrow> string \<Rightarrow> int64" where
  "lookup0 m k = (case m k of Some v \<Rightarrow> v | None \<Rightarrow> 0)"

definition lookupF :: "(string \<rightharpoonup> bool) \<Rightarrow> string \<Rightarrow> bool" where
  "lookupF m k = (case m k of Some b \<Rightarrow> b | None \<Rightarrow> False)"

text \<open>The increment of an \<open>int64\<close> counter wraps around.\<close>

definition wrap64 :: "int \<Rightarrow> int64" where
  "wrap64 v = (v + 2 ^ 63) mod 2 ^ 64 - 2 ^ 63"

text \<open>The body of the loop over the first data row, for field \<open>i\<close> with text \<open>val\<close>.\<close>

definition classify_field :: "string list \<Rightarrow> zm_state \<Rightarrow> nat \<times> string \<Rightarrow> zm_state" where
  "classify_field header st iv =
     (case iv of (i, val) \<Rightarrow>
        if i < length header
        then (case ParseInt val of
                Inr v \<Rightarrow> st\<lparr>isIntColumn := (isIntColumn st)(header ! i \<mapsto> True),
                            minValues := (minValues st)(header ! i \<mapsto> v),
                            maxValues := (maxValues st)(header ! i \<mapsto> v),
                            initialized := (initialized st)(header ! i \<mapsto> True)\<rparr>
              | Inl _ \<Rightarrow> st)
        else st)"

definition classify_row :: "string list \<Rightarrow> string list \<Rightarrow> zm_state \<Rightarrow> zm_state" where
  "classify_row header first st = foldl (classify_field header) st (enumerate 0 first)"

text \<open>The body of the loop over a later record, for field \<open>i\<close> with text \<open>val\<close>.\<close>

definition track_field :: "string list \<Rightarrow> zm_state \<Rightarrow> nat \<times> string \<Rightarrow> zm_state" where
  "track_field header st iv =
     (case iv of (i, val) \<Rightarrow>
        if i \<ge> length header then st
        else let colName = header ! i
             in if \<not> lookupF (isIntColumn st) colName then st
                else (case ParseInt val of
                        Inl _ \<Rightarrow> st\<lparr>isIntColumn := (isIntColumn st)(colName := None),
                                    minValues := (minValues st)(colName := None),
                                    maxValues := (maxValues st)(colName := None)\<rparr>
                      | Inr v \<Rightarrow>
                          (let st1 = (if v < lookup0 (minValues st) colName
                                      then st\<lparr>minValues := (minValues st)(colName \<mapsto> v)\<rparr>
                                      else st)
                           in if v > lookup0 (maxValues st1) colName
                              then st1\<lparr>maxValues := (maxValues st1)(colName \<mapsto> v)\<rparr>
                              else st1)))"

definition track_row :: "string list \<Rightarrow> string list \<Rightarrow> zm_state \<Rightarrow> zm_state" where
  "track_row header record st = foldl (track_field header) st (enumerate 0 record)"

text \<open>The loop over the remaining records, until \<open>io.EOF\<close> or an error.\<close>

function zm_loop :: "string list \<Rightarrow> csv_Reader \<Rightarrow> zm_state \<Rightarrow> int64
    \<Rightarrow> error + zm_state \<times> int64" where
  "zm_loop header r st rowCount =
     (case csv_Read r of
        (Inl e, r') \<Rightarrow> (if e = EOF then Inr (st, rowCount)
                       else Inl (Wrap ''error reading CSV row'' e))
      | (Inr record, r') \<Rightarrow>
          zm_loop header r' (track_row header record st) (wrap64 (rowCount + 1)))"
  by pat_completeness auto
termination
  by (relation "measure (\<lambda>(header, r, st, rowCount). length (pending r))")
     (auto simp: csv_Read_def Let_def split: list.splits if_splits)

declare zm_loop.simps [simp del]

text \<open>
  The file is opened for reading and closed again on every path (\<open>defer\<close>), so the
  function is modelled on the disk alone.
\<close>

definition GenerateZoneMap :: "string \<Rightarrow> world \<Rightarrow> error + ZoneMap" where
  "GenerateZoneMap csvPath w =
     (case disk w (Path csvPath) of
        None \<Rightarrow> Inl (Wrap ''failed to open CSV'' ErrNotExist)
      | Some d \<Rightarrow>
          (case csv_Read (csv_NewReader d) of
             (Inl e, r1) \<Rightarrow> Inl (Wrap ''failed to read CSV header'' e)
           | (Inr header, r1) \<Rightarrow>
               (case csv_Read r1 of
                  (Inl e, r2) \<Rightarrow>
                    (if e = EOF
                     then Inr \<lparr>Filename = csvPath, RowCount = 0,
                               MinValues = minValues zm_init, MaxValues = maxValues zm_init\<rparr>
                     else Inl (Wrap ''failed to read first data row'' e))
                | (Inr first, r2) \<Rightarrow>
                    (case zm_loop header r2 (classify_row header first zm_init) 1 of
                       Inl e \<Rightarrow> Inl e
                     | Inr (st, rowCount) \<Rightarrow>
                         Inr \<lparr>Filename = csvPath, RowCount = rowCount,
                              MinValues = minValues st, MaxValues = maxValues st\<rparr>))))"

text \<open>
  The table of the specification, written from its words: for each of the six
  comparators, when a file with bounds \<open>mn\<close>, \<open>mx\<close> is to be pruned for literal \<open>v\<close>.
\<close>

fun prune_iff :: "Comparator \<Rightarrow> int \<Rightarrow> int \<Rightarrow> int \<Rightarrow> bool" where
  "prune_iff Eq mn mx v = (v < mn \<or> v > mx)"
| "prune_iff Lt mn mx v = (mn \<ge> v)"
| "prune_iff Lte mn mx v = (mn > v)"
| "prune_iff Gt mn mx v = (mx \<le> v)"
| "prune_iff Gte mn mx v = (mx < v)"
| "prune_iff Neq mn mx v = (mn = mx \<and> mx = v)"
| "prune_iff (ComparatorOther _) mn mx v = False"

definition tracked :: "ZoneMap \<Rightarrow> string \<Rightarrow> bool" where
  "tracked zm c = (c \<in> dom (MinValues zm) \<and> c \<in> dom (MaxValues zm))"

subsection \<open>Specification-side notions for zone-map generation\<close>

text \<open>A field "parses as an integer" when \<open>strconv.ParseInt\<close> returns no error.\<close>

definition ok_int :: "string \<Rightarrow> bool" where
  "ok_int val = (case ParseInt val of Inr _ \<Rightarrow> True | Inl _ \<Rightarrow> False)"

text \<open>
  The columns of the header whose field parses as an integer in every one of the given
  records.
\<close>

definition integer_columns :: "string list \<Rightarrow> csv_data \<Rightarrow> string set" where
  "integer_columns header rows =
     {header ! i | i. i < length header \<and> (\<forall>r \<in> set rows. ok_int (r ! i))}"

text \<open>
  The columns the specification tracks for a file with the given data records: the
  first data record decides which columns start as tracked, so a file without data
  records tracks none; otherwise they are the columns that are integers in every
  record.
\<close>

definition tracked_columns :: "string list \<Rightarrow> csv_data \<Rightarrow> string set" where
  "tracked_columns header rows = (if rows = [] then {} else integer_columns header rows)"

text \<open>The names of the header positions at which a record holds a non-integer.\<close>

definition bad_columns :: "string list \<Rightarrow> string list \<Rightarrow> string set" where
  "bad_columns h rc = {h ! i | i. i < length rc \<and> i < length h \<and> \<not> ok_int (rc ! i)}"

text \<open>
  The loop invariant: the three maps have the same keys, and \<open>isIntColumn\<close> only ever
  holds \<open>true\<close>. \<open>zm_le st' st\<close>: state \<open>st'\<close> tracks no column that \<open>st\<close> does not,
  with a minimum no larger and a maximum no smaller.
\<close>

definition zm_inv :: "zm_state \<Rightarrow> bool" where
  "zm_inv st = (dom (minValues st) = dom (isIntColumn st) \<and> dom (maxValues st) = dom (isIntColumn st)
      \<and> (\<forall>c. c \<in> dom (isIntColumn st) \<longrightarrow> isIntColumn st c = Some True))"

definition zm_le :: "zm_state \<Rightarrow> zm_state \<Rightarrow> bool" where
  "zm_le st' st = (dom (isIntColumn st') \<subseteq> dom (isIntColumn st) \<and>
     (\<forall>c \<in> dom (isIntColumn st'). lookup0 (minValues st') c \<le> lookup0 (minValues st) c
         \<and> lookup0 (maxValues st) c \<le> lookup0 (maxValues st') c))"

text \<open>Two example files: the second is the first with one more record.\<close>

definition zm_world1 :: world where
  "zm_world1 = \<lparr>disk = [Path ''f.csv'' \<mapsto> [[''id'', ''v''], [''1'', ''5''], [''3'', ''x'']]],
   open_files = {}, next_file = 0, next_temp = 0\<rparr>"

definition zm_world2 :: world where
  "zm_world2 = \<lparr>disk = [Path ''f.csv'' \<mapsto> [[''id'', ''v''], [''1'', ''5''], [''3'', ''x''], [''2'', ''9'']]],
   open_files = {}, next_file = 0, next_temp = 0\<rparr>"

text \<open>A file whose two columns have the same name.\<close>

definition dup_world :: world where
  "dup_world = \<lparr>disk = [Path ''d.csv'' \<mapsto> [[''a'', ''a''], [''1'', ''2''], [''5'', ''x''], [''0'', ''0'']]],
   open_files = {}, next_file = 0, next_temp = 0\<rparr>"

subsection \<open>Example inputs\<close>

text \<open>
  An instance of the library record for the examples: \<open>ParseFloat\<close> and the two float renderings know the literals 1.5 and 2.5, \<open>sort.Slice\<close> is an insertion sort, and rounding is the identity.
\<close>

fun insort_by :: "('a \<Rightarrow> 'a \<Rightarrow> bool) \<Rightarrow> 'a \<Rightarrow> 'a list \<Rightarrow> 'a list" where
  "insort_by lt x [] = [x]"
| "insort_by lt x (y # ys) = (if lt y x then y # insort_by lt x ys else x # y # ys)"

definition example_lib :: stdlib where
  "example_lib = \<lparr>ParseFloat = (\<lambda>s. if s = ''2.5'' then Some 2.5 else if s = ''1.5'' then Some 1.5 else None),
      FormatFloat = (\<lambda>v. if v = 2.5 then ''2.5'' else if v = 1.5 then ''1.5'' else ''0''),
      Sprint_float = (\<lambda>v. if v = 2.5 then ''2.5'' else if v = 1.5 then ''1.5'' else ''0''),
      sort_Slice = (\<lambda>lt xs. foldr (insort_by lt) xs []),
      round64 = (\<lambda>x. x)\<rparr>"

text \<open>
  A file whose second data record holds no number in its two numeric columns.
\<close>

definition scan_world :: world where
  "scan_world = \<lparr>disk = [Path ''f.csv'' \<mapsto> [[''id'', ''price'', ''name''], [''1'', ''2.5'', ''bob''], [''x'', ''y'', ''alice'']]],
     open_files = {}, next_file = 0, next_temp = 0\<rparr>"

section \<open>Filter (operators/filter.go)\<close>

text \<open>
  The upstream operator behind the \<open>types.Operator\<close> interface is modelled by what it
  does: the finite list of results its successive \<open>Next()\<close> calls return, a row or an
  error each; once the list is used up every call returns \<open>(nil, nil)\<close>.
\<close>

type_synonym Input = "(error + Row) list"

definition input_Next :: "Input \<Rightarrow> (error + Row option) \<times> Input" where
  "input_Next inp =
     (case inp of
        [] \<Rightarrow> (Inr None, [])
      | Inl e # rest \<Rightarrow> (Inl e, rest)
      | Inr row # rest \<Rightarrow> (Inr (Some row), rest))"

text \<open>
  The conversion \<open>int64(val)\<close> of a \<open>float64\<close> truncates toward zero. For a value
  outside the range of \<open>int64\<close> Go leaves the result to the implementation; the model
  takes the most negative integer, as amd64 does.
\<close>

definition trunc_toward_zero :: "real \<Rightarrow> int" where
  "trunc_toward_zero f = (if f \<ge> 0 then \<lfloor>f\<rfloor> else \<lceil>f\<rceil>)"

definition float_to_int64 :: "real \<Rightarrow> int64" where
  "float_to_int64 f =
     (if in_int64 (trunc_toward_zero f) then trunc_toward_zero f else - (2 ^ 63))"

text \<open>\<open>fmt.Sprintf("%v", v)\<close> for the values a row or a literal holds.\<close>

definition Sprint_v :: "stdlib \<Rightarrow> Value \<Rightarrow> string" where
  "Sprint_v L v =
     (case v of
        VInt i \<Rightarrow> FormatInt i
      | VFloat f \<Rightarrow> Sprint_float L f
      | VString s \<Rightarrow> s
      | VNil \<Rightarrow> ''<nil>'')"

text \<open>
  \<open>toInt64\<close> and \<open>toFloat64\<close> return a value and \<open>ok\<close>; \<open>None\<close> stands for
  \<open>ok = false\<close>. No value of Go's type \<open>int\<close> occurs in a row or in a literal made by
  the planner, so the \<open>case int\<close> branches have no counterpart.
\<close>

definition toInt64 :: "Value \<Rightarrow> int64 option" where
  "toInt64 v =
     (case v of
        VInt val \<Rightarrow> Some val
      | VFloat val \<Rightarrow> Some (float_to_int64 val)
      | _ \<Rightarrow> None)"

definition toFloat64 :: "stdlib \<Rightarrow> Value \<Rightarrow> real option" where
  "toFloat64 L v =
     (case v of
        VFloat val \<Rightarrow> Some val
      | VInt val \<Rightarrow> Some (round64 L (of_int val))
      | _ \<Rightarrow> None)"

definition compareInt64 :: "int64 \<Rightarrow> Comparator \<Rightarrow> int64 \<Rightarrow> bool" where
  "compareInt64 left cmp right =
     (case cmp of
        Eq \<Rightarrow> left = right
      | Lt \<Rightarrow> left < right
      | Gt \<Rightarrow> left > right
      | Lte \<Rightarrow> left \<le> right
      | Gte \<Rightarrow> left \<ge> right
      | Neq \<Rightarrow> left \<noteq> right
      | ComparatorOther _ \<Rightarrow> False)"

definition compareFloat64 :: "real \<Rightarrow> Comparator \<Rightarrow> real \<Rightarrow> bool" where
  "compareFloat64 left cmp right =
     (case cmp of
        Eq \<Rightarrow> left = right
      | Lt \<Rightarrow> left < right
      | Gt \<Rightarrow> left > right
      | Lte \<Rightarrow> left \<le> right
      | Gte \<Rightarrow> left \<ge> right
      | Neq \<Rightarrow> left \<noteq> right
      | ComparatorOther _ \<Rightarrow> False)"

definition compareString :: "string \<Rightarrow> Comparator \<Rightarrow> string \<Rightarrow> bool" where
  "compareString left cmp right =
     (case cmp of
        Eq \<Rightarrow> left = right
      | Lt \<Rightarrow> left < right
      | Gt \<Rightarrow> left > right
      | Lte \<Rightarrow> left \<le> right
      | Gte \<Rightarrow> left \<ge> right
      | Neq \<Rightarrow> left \<noteq> right
      | ComparatorOther _ \<Rightarrow> False)"

definition compare :: "stdlib \<Rightarrow> Value \<Rightarrow> Comparator \<Rightarrow> Value \<Rightarrow> bool" where
  "compare L left cmp right =
     (case left of
        VInt leftInt \<Rightarrow>
          (case toInt64 right of
             None \<Rightarrow> False
           | Some rightInt \<Rightarrow> compareInt64 leftInt cmp rightInt)
      | VFloat leftFloat \<Rightarrow>
          (case toFloat64 L right of
             None \<Rightarrow> False
           | Some rightFloat \<Rightarrow> compareFloat64 leftFloat cmp rightFloat)
      | VString leftStr \<Rightarrow>
          compareString leftStr cmp
            (case right of VString rightStr \<Rightarrow> rightStr | _ \<Rightarrow> Sprint_v L right)
      | VNil \<Rightarrow> False)"

record Comparison =
  cmp_ColumnIndex :: int
  cmp_Comparator :: Comparator
  cmp_Value :: Value

definition BuildComparisonPredicate :: "stdlib \<Rightarrow> Comparison \<Rightarrow> Row \<Rightarrow> bool" where
  "BuildComparisonPredicate L c row =
     (if cmp_ColumnIndex c < 0 \<or> cmp_ColumnIndex c \<ge> int (length row) then False
      else compare L (row ! nat (cmp_ColumnIndex c)) (cmp_Comparator c) (cmp_Value c))"

text \<open>
  The comparison the specification describes for an integer row value and a float
  literal, written from its words: the integer is promoted to a float and the two floats
  are compared exactly.
\<close>

definition promoted_compare :: "int64 \<Rightarrow> Comparator \<Rightarrow> real \<Rightarrow> bool" where
  "promoted_compare a cmp f = compareFloat64 (of_int a) cmp f"

section \<open>Aggregation (operators/aggregate.go)\<close>

record AggregateExpr =
  agg_Type :: AggregateType
  agg_ColumnIndex :: int
  Alias :: string

record aggregateState =
  st_count :: int64
  st_sum :: real
  st_min :: real
  st_max :: real
  hasData :: bool

record ScalarAggregateOp =
  aggregates :: "AggregateExpr list"
  outputSchema :: Schema
  computed :: bool
  resultRow :: "Row option"

definition MaxFloat64 :: real where
  "MaxFloat64 = (2 ^ 53 - 1) * 2 ^ 971"

definition AggregateType_String :: "AggregateType \<Rightarrow> string" where
  "AggregateType_String a =
     (case a of Count \<Rightarrow> ''COUNT'' | Sum \<Rightarrow> ''SUM'' | MinAgg \<Rightarrow> ''MIN'' | MaxAgg \<Rightarrow> ''MAX''
      | Avg \<Rightarrow> ''AVG'' | AggregateOther _ \<Rightarrow> ''?'')"

text \<open>The name and the type of output column \<open>i\<close>, as both constructors compute them.\<close>

definition agg_column_name :: "nat \<times> AggregateExpr \<Rightarrow> string" where
  "agg_column_name ia =
     (case ia of (i, agg) \<Rightarrow>
        if Alias agg \<noteq> [] then Alias agg
        else AggregateType_String (agg_Type agg) @ ''_'' @ FormatInt (int i))"

definition agg_column_type :: "AggregateExpr \<Rightarrow> DataType" where
  "agg_column_type agg = (if agg_Type agg = Count then IntType else FloatType)"

definition NewScalarAggregateOp :: "AggregateExpr list \<Rightarrow> ScalarAggregateOp" where
  "NewScalarAggregateOp aggs =
     \<lparr>aggregates = aggs,
      outputSchema = \<lparr>Columns = map agg_column_name (enumerate 0 aggs),
                      Types = map agg_column_type aggs\<rparr>,
      computed = False,
      resultRow = None\<rparr>"

definition toNumericValue :: "stdlib \<Rightarrow> Value \<Rightarrow> real option" where
  "toNumericValue L val =
     (case val of
        VInt v \<Rightarrow> Some (round64 L (of_int v))
      | VFloat v \<Rightarrow> Some v
      | _ \<Rightarrow> None)"

text \<open>
  \<open>updateState\<close> and \<open>finalizeState\<close>; \<open>ScalarAggregateOp\<close> and \<open>HashAggregateOp\<close>
  each carry a copy with the same text.
\<close>

definition updateState :: "stdlib \<Rightarrow> aggregateState \<Rightarrow> AggregateExpr \<Rightarrow> Row \<Rightarrow> aggregateState" where
  "updateState L state agg row =
     (let st1 = state\<lparr>st_count := wrap64 (st_count state + 1)\<rparr>
      in if agg_Type agg = Count \<and> agg_ColumnIndex agg < 0 then st1\<lparr>hasData := True\<rparr>
         else if agg_ColumnIndex agg < 0 \<or> agg_ColumnIndex agg \<ge> int (length row) then st1
         else (case toNumericValue L (row ! nat (agg_ColumnIndex agg)) of
                 None \<Rightarrow> st1
               | Some numVal \<Rightarrow>
                   (let st2 = st1\<lparr>hasData := True, st_sum := round64 L (st_sum st1 + numVal)\<rparr>;
                        st3 = (if numVal < st_min st2 then st2\<lparr>st_min := numVal\<rparr> else st2)
                    in if numVal > st_max st3 then st3\<lparr>st_max := numVal\<rparr> else st3)))"

definition finalizeState :: "stdlib \<Rightarrow> aggregateState \<Rightarrow> AggregateExpr \<Rightarrow> Value" where
  "finalizeState L state agg =
     (case agg_Type agg of
        Count \<Rightarrow> VInt (st_count state)
      | Sum \<Rightarrow> (if \<not> hasData state then VFloat 0 else VFloat (st_sum state))
      | MinAgg \<Rightarrow> (if \<not> hasData state then VNil else VFloat (st_min state))
      | MaxAgg \<Rightarrow> (if \<not> hasData state then VNil else VFloat (st_max state))
      | Avg \<Rightarrow> (if st_count state = 0 then VNil
                else VFloat (round64 L (st_sum state / round64 L (of_int (st_count state)))))
      | AggregateOther _ \<Rightarrow> VNil)"

text \<open>The state \<open>ScalarAggregateOp.Next\<close> starts every aggregate with.\<close>

definition initial_state :: aggregateState where
  "initial_state = \<lparr>st_count = 0, st_sum = 0, st_min = MaxFloat64, st_max = - MaxFloat64,
                    hasData = False\<rparr>"

text \<open>The update of every aggregate's state with one row.\<close>

definition update_states :: "stdlib \<Rightarrow> AggregateExpr list \<Rightarrow> aggregateState list \<Rightarrow> Row
    \<Rightarrow> aggregateState list" where
  "update_states L aggs states row = map (\<lambda>(st, agg). updateState L st agg row) (zip states aggs)"

text \<open>The loop that streams through the input: until \<open>(nil, nil)\<close> or an error.\<close>

fun aggregate_loop :: "stdlib \<Rightarrow> AggregateExpr list \<Rightarrow> aggregateState list \<Rightarrow> Input
    \<Rightarrow> (error + aggregateState list) \<times> Input" where
  "aggregate_loop L aggs states [] = (Inr states, [])"
| "aggregate_loop L aggs states (Inl e # rest) = (Inl e, rest)"
| "aggregate_loop L aggs states (Inr row # rest) =
     aggregate_loop L aggs (update_states L aggs states row) rest"

definition ScalarAggregateOp_Next :: "stdlib \<Rightarrow> ScalarAggregateOp \<Rightarrow> Input
    \<Rightarrow> (error + Row option) \<times> ScalarAggregateOp \<times> Input" where
  "ScalarAggregateOp_Next L s inp =
     (if computed s then (Inr None, s, inp)
      else case aggregate_loop L (aggregates s)
                  (replicate (length (aggregates s)) initial_state) inp of
             (Inl e, inp') \<Rightarrow> (Inl e, s, inp')
           | (Inr states, inp') \<Rightarrow>
               (let values = map (\<lambda>(st, agg). finalizeState L st agg) (zip states (aggregates s))
                in (Inr (Some values), s\<lparr>computed := True, resultRow := Some values\<rparr>, inp')))"

text \<open>The operator and its input after a call of \<open>Next\<close>, and the call's result.\<close>

definition scalar_step :: "stdlib \<Rightarrow> ScalarAggregateOp \<times> Input \<Rightarrow> ScalarAggregateOp \<times> Input" where
  "scalar_step L si = snd (ScalarAggregateOp_Next L (fst si) (snd si))"

definition scalar_result :: "stdlib \<Rightarrow> ScalarAggregateOp \<times> Input \<Rightarrow> error + Row option" where
  "scalar_result L si = fst (ScalarAggregateOp_Next L (fst si) (snd si))"

text \<open>
  \<open>HashAggregateOp.buildGroupKey\<close>: the loop over \<open>groupByIndices\<close> with its position
  \<open>i\<close> and the key built so far.
\<close>

fun buildGroupKey_loop :: "stdlib \<Rightarrow> Row \<Rightarrow> nat \<Rightarrow> int list \<Rightarrow> string \<Rightarrow> string" where
  "buildGroupKey_loop L row i [] key = key"
| "buildGroupKey_loop L row i (idx # rest) key =
     (let key1 = (if i > 0 then key @ [CHR 0x00] else key);
          key2 = (if idx \<ge> 0 \<and> idx < int (length row)
                  then key1 @ Sprint_v L (row ! nat idx) else key1)
      in buildGroupKey_loop L row (Suc i) rest key2)"

definition buildGroupKey :: "stdlib \<Rightarrow> int list \<Rightarrow> Row \<Rightarrow> string" where
  "buildGroupKey L groupByIndices row = buildGroupKey_loop L row 0 groupByIndices []"

text \<open>The values of the group-by columns of a row, as \<open>computeGroups\<close> stores them.\<close>

definition keyValues_of :: "int list \<Rightarrow> Row \<Rightarrow> Value list" where
  "keyValues_of groupByIndices row =
     map (\<lambda>idx. if idx \<ge> 0 \<and> idx < int (length row) then row ! nat idx else VNil) groupByIndices"

subsection \<open>Specification-side notions and example inputs for comparison and aggregation\<close>

text \<open>
  The result the specification lists for each aggregate kind over an empty input.
\<close>

definition empty_input_value :: "AggregateExpr \<Rightarrow> Value" where
  "empty_input_value agg =
     (case agg_Type agg of Count \<Rightarrow> VInt 0 | Sum \<Rightarrow> VFloat 0 | MinAgg \<Rightarrow> VNil | MaxAgg \<Rightarrow> VNil
      | Avg \<Rightarrow> VNil | AggregateOther _ \<Rightarrow> VNil)"

text \<open>
  A row holds a number in column \<open>idx\<close>: the index is in range and the value converts with \<open>toNumericValue\<close>.
\<close>

definition numeric_at :: "stdlib \<Rightarrow> int \<Rightarrow> Row \<Rightarrow> bool" where
  "numeric_at L idx row =
     (0 \<le> idx \<and> idx < int (length row) \<and> toNumericValue L (row ! nat idx) \<noteq> None)"

text \<open>
  Two rows whose text values contain the separator byte.
\<close>

definition nul_row1 :: Row where
  "nul_row1 = [VString [CHR ''a'', CHR 0x00, CHR ''b''], VString ''c'']"

definition nul_row2 :: Row where
  "nul_row2 = [VString ''a'', VString [CHR ''b'', CHR 0x00, CHR ''c'']]"

text \<open>
  One aggregate of each kind.
\<close>

definition five_aggregates :: "AggregateExpr list" where
  "five_aggregates = [\<lparr>agg_Type = Count, agg_ColumnIndex = - 1, Alias = ''n''\<rparr>,
     \<lparr>agg_Type = Sum, agg_ColumnIndex = 0, Alias = ''s''\<rparr>,
     \<lparr>agg_Type = MinAgg, agg_ColumnIndex = 0, Alias = ''lo''\<rparr>,
     \<lparr>agg_Type = MaxAgg, agg_ColumnIndex = 0, Alias = ''hi''\<rparr>,
     \<lparr>agg_Type = Avg, agg_ColumnIndex = 0, Alias = ''''\<rparr>]"

text \<open>
  Three rows without a number in column 0.
\<close>

definition text_rows :: "Row list" where
  "text_rows = [[VString ''a''], [VString ''b''], [VNil]]"

section \<open>container/heap\<close>

text \<open>
  The binary heap of the standard library on a slice, for the \<open>Less\<close> the merge heap
  gives it (a comparison of two elements). \<open>swap\<close> is the heap's \<open>Swap(i, j)\<close>; \<open>up\<close>
  and \<open>down\<close> are the library's loops, the parent of \<open>j\<close> being \<open>(j - 1) / 2\<close> (which
  is 0 for \<open>j = 0\<close>, in Go by truncation and here by the subtraction on \<open>nat\<close>).
\<close>

definition swap :: "'a list \<Rightarrow> nat \<Rightarrow> nat \<Rightarrow> 'a list" where
  "swap xs i j = xs[i := xs ! j, j := xs ! i]"

function heap_up :: "('a \<Rightarrow> 'a \<Rightarrow> bool) \<Rightarrow> 'a list \<Rightarrow> nat \<Rightarrow> 'a list" where
  "heap_up lt xs j =
     (let i = (j - 1) div 2
      in if i = j \<or> \<not> lt (xs ! j) (xs ! i) then xs
         else heap_up lt (swap xs i j) i)"
  by pat_completeness auto
termination
  by (relation "measure (\<lambda>(lt, xs, j). j)") auto

declare heap_up.simps [simp del]

function heap_down :: "('a \<Rightarrow> 'a \<Rightarrow> bool) \<Rightarrow> 'a list \<Rightarrow> nat \<Rightarrow> nat \<Rightarrow> 'a list" where
  "heap_down lt xs i n =
     (let j1 = 2 * i + 1
      in if j1 \<ge> n then xs
         else (let j = (if j1 + 1 < n \<and> lt (xs ! (j1 + 1)) (xs ! j1) then j1 + 1 else j1)
               in if \<not> lt (xs ! j) (xs ! i) then xs
                  else heap_down lt (swap xs i j) j n))"
  by pat_completeness auto
termination
  by (relation "measure (\<lambda>(lt, xs, i, n). n - i)") (auto simp: Let_def split: if_splits)

declare heap_down.simps [simp del]

text \<open>\<open>heap.Init\<close>: \<open>down(i, n)\<close> for \<open>i\<close> from \<open>n/2 - 1\<close> down to 0.\<close>

definition heap_Init :: "('a \<Rightarrow> 'a \<Rightarrow> bool) \<Rightarrow> 'a list \<Rightarrow> 'a list" where
  "heap_Init lt xs = foldl (\<lambda>ys i. heap_down lt ys i (length xs)) xs (rev [0 ..< length xs div 2])"

text \<open>\<open>heap.Push\<close>: append, then \<open>up\<close> from the last index.\<close>

definition heap_Push :: "('a \<Rightarrow> 'a \<Rightarrow> bool) \<Rightarrow> 'a list \<Rightarrow> 'a \<Rightarrow> 'a list" where
  "heap_Push lt xs x = heap_up lt (xs @ [x]) (length xs)"

text \<open>
  \<open>heap.Pop\<close>: swap the first and the last element, \<open>down\<close> from 0 on the shortened
  range, then take the last element off. It is only called on a non-empty heap.
\<close>

definition heap_Pop :: "('a \<Rightarrow> 'a \<Rightarrow> bool) \<Rightarrow> 'a list \<Rightarrow> 'a \<times> 'a list" where
  "heap_Pop lt xs =
     (let n = length xs - 1;
          ys = heap_down lt (swap xs 0 n) 0 n
      in (last ys, butlast ys))"

section \<open>External merge sort\<close>

record heapItem =
  item_row :: Row
  fileIndex :: nat

record mergeHeap =
  items :: "heapItem list"
  heap_columnIndex :: int
  heap_desc :: bool

record SortOp =
  columnIndex :: int
  desc :: bool
  chunkSize :: int
  sort_schema :: Schema
  prepared :: bool
  tempFiles :: "path list"
  readers :: "csv_Reader option list"
  files :: "nat option list"
  merge_heap :: "mergeHeap option"
  exhausted :: bool

text \<open>
  \<open>NewSortOpWithChunkSize\<close>, given the schema its input reports. The slices \<open>readers\<close>
  and \<open>files\<close> and the heap pointer start as \<open>nil\<close>.
\<close>

definition NewSortOpWithChunkSize :: "Schema \<Rightarrow> int \<Rightarrow> bool \<Rightarrow> int \<Rightarrow> SortOp" where
  "NewSortOpWithChunkSize inputSchema colIdx dsc chunk =
     \<lparr>columnIndex = colIdx, desc = dsc, chunkSize = chunk, sort_schema = inputSchema,
      prepared = False, tempFiles = [], readers = [], files = [], merge_heap = None,
      exhausted = False\<rparr>"

text \<open>
  \<open>compareRows\<close>: \<open>SortOp\<close> and \<open>mergeHeap\<close> each have a method with this text, on
  their own \<open>columnIndex\<close>. Strings compare bytewise.
\<close>

definition compareRows :: "int \<Rightarrow> Row \<Rightarrow> Row \<Rightarrow> int" where
  "compareRows colIdx a b =
     (if colIdx < 0 \<or> colIdx \<ge> int (length a) \<or> colIdx \<ge> int (length b) then 0
      else (case a ! nat colIdx of
              VInt av \<Rightarrow>
                (case b ! nat colIdx of
                   VInt bv \<Rightarrow> if av < bv then - 1 else if av > bv then 1 else 0
                 | _ \<Rightarrow> 0)
            | VFloat av \<Rightarrow>
                (case b ! nat colIdx of
                   VFloat bv \<Rightarrow> if av < bv then - 1 else if av > bv then 1 else 0
                 | _ \<Rightarrow> 0)
            | VString av \<Rightarrow>
                (case b ! nat colIdx of
                   VString bv \<Rightarrow> if av < bv then - 1 else if av > bv then 1 else 0
                 | _ \<Rightarrow> 0)
            | VNil \<Rightarrow> 0))"

text \<open>The \<open>less\<close> closure \<open>flushChunk\<close> hands to \<open>sort.Slice\<close>, on two rows.\<close>

definition sort_less :: "SortOp \<Rightarrow> Row \<Rightarrow> Row \<Rightarrow> bool" where
  "sort_less s a b =
     (let c = compareRows (columnIndex s) a b in if desc s then c > 0 else c < 0)"

text \<open>\<open>mergeHeap.Less\<close>, on two items.\<close>

definition mergeHeap_Less :: "mergeHeap \<Rightarrow> heapItem \<Rightarrow> heapItem \<Rightarrow> bool" where
  "mergeHeap_Less h a b =
     (let c = compareRows (heap_columnIndex h) (item_row a) (item_row b)
      in if heap_desc h then c > 0 else c < 0)"

definition mergeHeap_Len :: "mergeHeap \<Rightarrow> nat" where
  "mergeHeap_Len h = length (items h)"

definition rowToRecord :: "stdlib \<Rightarrow> Row \<Rightarrow> string list" where
  "rowToRecord L row =
     map (\<lambda>val. case val of
                  VInt v \<Rightarrow> FormatInt v
                | VFloat v \<Rightarrow> FormatFloat L v
                | VString v \<Rightarrow> v
                | VNil \<Rightarrow> Sprint_v L VNil) row"

definition recordToRow :: "stdlib \<Rightarrow> SortOp \<Rightarrow> string list \<Rightarrow> Row" where
  "recordToRow L s rec = parse_fields L (Types (sort_schema s)) rec"

text \<open>
  \<open>flushChunk\<close>: sort the chunk, create a temporary file (its descriptor is closed
  again by \<open>defer\<close>), write the records through a \<open>csv.Writer\<close>, and remember the
  path. The file then holds what a reader gets back from the written text. Creating
  the file, writing and flushing are taken to succeed: the world has no full or
  read-only disk, so the three error returns of the source have no branch here.
\<close>

definition flushChunk :: "stdlib \<Rightarrow> SortOp \<Rightarrow> Row list \<Rightarrow> world \<Rightarrow> error option \<times> SortOp \<times> world" where
  "flushChunk L s chunk w =
     (let sorted = sort_Slice L (sort_less s) chunk;
          tempFile = TempPath (next_temp w);
          w' = w\<lparr>disk := (disk w)(tempFile \<mapsto> csv_text (map (rowToRecord L) sorted)),
                 next_temp := Suc (next_temp w),
                 next_file := Suc (next_file w)\<rparr>
      in (None, s\<lparr>tempFiles := tempFiles s @ [tempFile]\<rparr>, w'))"

text \<open>The loop of \<open>prepare\<close> over the input, with the chunk collected so far.\<close>

fun prepare_loop :: "stdlib \<Rightarrow> SortOp \<Rightarrow> Row list \<Rightarrow> Input \<Rightarrow> world
    \<Rightarrow> error option \<times> SortOp \<times> Row list \<times> Input \<times> world" where
  "prepare_loop L s chunk [] w = (None, s, chunk, [], w)"
| "prepare_loop L s chunk (Inl e # rest) w =
     (Some (Wrap ''error reading input for sort'' e), s, chunk, rest, w)"
| "prepare_loop L s chunk (Inr row # rest) w =
     (if int (length (chunk @ [row])) \<ge> chunkSize s
      then (case flushChunk L s (chunk @ [row]) w of
              (Some e, s', w') \<Rightarrow> (Some e, s', chunk @ [row], rest, w')
            | (None, s', w') \<Rightarrow> prepare_loop L s' [] rest w')
      else prepare_loop L s (chunk @ [row]) rest w)"

definition mergeHeap_push :: "mergeHeap \<Rightarrow> heapItem \<Rightarrow> mergeHeap" where
  "mergeHeap_push h x = h\<lparr>items := heap_Push (mergeHeap_Less h) (items h) x\<rparr>"

text \<open>
  The loop of \<open>setupMerge\<close> over the temporary files with their indices: open the
  file, make its reader, read the first record and push it.
\<close>

fun setupMerge_loop :: "stdlib \<Rightarrow> SortOp \<Rightarrow> world \<Rightarrow> (nat \<times> path) list
    \<Rightarrow> error option \<times> SortOp \<times> world" where
  "setupMerge_loop L s w [] = (None, s, w)"
| "setupMerge_loop L s w ((i, p) # rest) =
     (case os_Open p w of
        (Inl e, w') \<Rightarrow> (Some (Wrap ''failed to open temp file for merge'' e), s, w')
      | (Inr (f, d), w') \<Rightarrow>
          (case csv_Read (csv_NewReader d) of
             (Inl e, r') \<Rightarrow>
               (if e = EOF
                then setupMerge_loop L
                       (s\<lparr>files := (files s)[i := Some f], readers := (readers s)[i := Some r']\<rparr>)
                       w' rest
                else (Some (Wrap ''failed to read from temp file'' e),
                      s\<lparr>files := (files s)[i := Some f], readers := (readers s)[i := Some r']\<rparr>, w'))
           | (Inr rec, r') \<Rightarrow>
               setupMerge_loop L
                 (s\<lparr>files := (files s)[i := Some f], readers := (readers s)[i := Some r'],
                    merge_heap := map_option
                       (\<lambda>h. mergeHeap_push h \<lparr>item_row = recordToRow L s rec, fileIndex = i\<rparr>)
                       (merge_heap s)\<rparr>)
                 w' rest))"

definition setupMerge :: "stdlib \<Rightarrow> SortOp \<Rightarrow> world \<Rightarrow> error option \<times> SortOp \<times> world" where
  "setupMerge L s w =
     (if tempFiles s = [] then (None, s\<lparr>exhausted := True\<rparr>, w)
      else (let h0 = \<lparr>items = [], heap_columnIndex = columnIndex s, heap_desc = desc s\<rparr>;
                s1 = s\<lparr>readers := replicate (length (tempFiles s)) None,
                       files := replicate (length (tempFiles s)) None,
                       merge_heap := Some (h0\<lparr>items := heap_Init (mergeHeap_Less h0) (items h0)\<rparr>)\<rparr>
            in setupMerge_loop L s1 w (enumerate 0 (tempFiles s))))"

text \<open>
  \<open>prepare\<close>. The first chunk is made by \<open>make([]*types.Row, 0, s.chunkSize)\<close>, which
  panics for a negative chunk size before any row is read.
\<close>

definition prepare :: "stdlib \<Rightarrow> SortOp \<Rightarrow> Input \<Rightarrow> world \<Rightarrow> error option \<times> SortOp \<times> Input \<times> world" where
  "prepare L s inp w =
     (if prepared s then (None, s, inp, w)
      else if chunkSize s < 0
      then (Some (Panic ''makeslice: cap out of range''), s, inp, w)
      else (case prepare_loop L s [] inp w of
              (Some e, s1, chunk, inp1, w1) \<Rightarrow> (Some e, s1, inp1, w1)
            | (None, s1, chunk, inp1, w1) \<Rightarrow>
                (case (if length chunk > 0 then flushChunk L s1 chunk w1 else (None, s1, w1)) of
                   (Some e, s2, w2) \<Rightarrow> (Some e, s2, inp1, w2)
                 | (None, s2, w2) \<Rightarrow>
                     (case setupMerge L s2 w2 of
                        (Some e, s3, w3) \<Rightarrow> (Some e, s3, inp1, w3)
                      | (None, s3, w3) \<Rightarrow> (None, s3\<lparr>prepared := True\<rparr>, inp1, w3)))))"

text \<open>
  The part of \<open>Next\<close> after preparation: pop, read the next record of the same file,
  push it. Indexing \<open>readers\<close> out of range or calling \<open>Read\<close> on a nil reader panics.
\<close>

definition merge_next :: "stdlib \<Rightarrow> SortOp \<Rightarrow> (error + Row option) \<times> SortOp" where
  "merge_next L s =
     (case merge_heap s of
        None \<Rightarrow> (Inr None, s)
      | Some h \<Rightarrow>
          if exhausted s \<or> mergeHeap_Len h = 0 then (Inr None, s)
          else (case heap_Pop (mergeHeap_Less h) (items h) of
                  (item, rest) \<Rightarrow>
                    (let h1 = h\<lparr>items := rest\<rparr>;
                         s1 = s\<lparr>merge_heap := Some h1\<rparr>
                     in if fileIndex item \<ge> length (readers s1)
                        then (Inl (Panic ''index out of range''), s1)
                        else (case readers s1 ! fileIndex item of
                                None \<Rightarrow> (Inl (Panic ''nil pointer dereference''), s1)
                              | Some r \<Rightarrow>
                                  (case csv_Read r of
                                     (Inl e, r') \<Rightarrow>
                                       (if e = EOF
                                        then (Inr (Some (item_row item)),
                                              s1\<lparr>readers := (readers s1)[fileIndex item := Some r']\<rparr>)
                                        else (Inl (Wrap ''error reading during merge'' e),
                                              s1\<lparr>readers := (readers s1)[fileIndex item := Some r']\<rparr>))
                                   | (Inr rec, r') \<Rightarrow>
                                       (Inr (Some (item_row item)),
                                        s1\<lparr>readers := (readers s1)[fileIndex item := Some r'],
                                           merge_heap := Some (mergeHeap_push h1
                                             \<lparr>item_row = recordToRow L s rec,
                                              fileIndex = fileIndex item\<rparr>)\<rparr>))))))"

definition SortOp_Next :: "stdlib \<Rightarrow> SortOp \<Rightarrow> Input \<Rightarrow> world
    \<Rightarrow> (error + Row option) \<times> SortOp \<times> Input \<times> world" where
  "SortOp_Next L s inp w =
     (case prepare L s inp w of
        (Some e, s1, inp1, w1) \<Rightarrow> (Inl e, s1, inp1, w1)
      | (None, s1, inp1, w1) \<Rightarrow>
          (case merge_next L s1 of (res, s2) \<Rightarrow> (res, s2, inp1, w1)))"

text \<open>The operator, its input and the world after a call of \<open>Next\<close>, and the result.\<close>

definition sort_step :: "stdlib \<Rightarrow> SortOp \<times> Input \<times> world \<Rightarrow> SortOp \<times> Input \<times> world" where
  "sort_step L c = (case c of (s, inp, w) \<Rightarrow> snd (SortOp_Next L s inp w))"

definition sort_result :: "stdlib \<Rightarrow> SortOp \<times> Input \<times> world \<Rightarrow> error + Row option" where
  "sort_result L c = (case c of (s, inp, w) \<Rightarrow> fst (SortOp_Next L s inp w))"

subsection \<open>Specification-side notions and example inputs for the external sort\<close>

text \<open>
  The merge heap holds at most one row of each run: the file indices of its items are pairwise different, and each is the index of a temporary file. \<open>heap_size\<close> is the number of buffered rows.
\<close>

definition one_row_per_run :: "SortOp \<Rightarrow> bool" where
  "one_row_per_run s =
     (case merge_heap s of
        None \<Rightarrow> True
      | Some h \<Rightarrow> distinct (map fileIndex (items h)) \<and>
                  (\<forall>it \<in> set (items h). fileIndex it < length (tempFiles s)))"

definition heap_size :: "SortOp \<Rightarrow> nat" where
  "heap_size s = (case merge_heap s of None \<Rightarrow> 0 | Some h \<Rightarrow> length (items h))"

text \<open>
  The child \<open>down\<close> compares with: the smaller of the two children of \<open>i\<close> below \<open>n\<close>.
\<close>

definition down_child :: "('a \<Rightarrow> 'a \<Rightarrow> bool) \<Rightarrow> 'a list \<Rightarrow> nat \<Rightarrow> nat \<Rightarrow> nat" where
  "down_child lt xs i n = (if 2 * i + 2 < n \<and> lt (xs ! (2 * i + 2)) (xs ! (2 * i + 1)) then 2 * i + 2 else 2 * i + 1)"

text \<open>
  \<open>run_ext s s'\<close>: the heap is the same and no temporary file was forgotten. \<open>loop_inv k\<close>: the invariant of the loop of \<open>setupMerge\<close> before file \<open>k\<close>.
\<close>

definition run_ext :: "SortOp \<Rightarrow> SortOp \<Rightarrow> bool" where
  "run_ext s s' = (merge_heap s' = merge_heap s \<and> length (tempFiles s) \<le> length (tempFiles s'))"

definition loop_inv :: "nat \<Rightarrow> SortOp \<Rightarrow> bool" where
  "loop_inv k s = (\<exists>h. merge_heap s = Some h \<and> distinct (map fileIndex (items h)) \<and>
                      (\<forall>it \<in> set (items h). fileIndex it < k))"

text \<open>
  The first end-to-end scenario of the specification: three rows sorted descending by \<open>val\<close> with chunk size 2, on an empty disk.
\<close>

definition int_schema :: Schema where
  "int_schema = \<lparr>Columns = [''id'', ''val''], Types = [IntType, IntType]\<rparr>"

definition empty_world :: world where
  "empty_world = \<lparr>disk = Map.empty, open_files = {}, next_file = 0, next_temp = 0\<rparr>"

definition three_rows :: "Row list" where
  "three_rows = [[VInt 1, VInt 10], [VInt 2, VInt 5], [VInt 3, VInt 20]]"

definition sort_start :: "SortOp \<times> Input \<times> world" where
  "sort_start = (NewSortOpWithChunkSize int_schema 1 True 2, map Inr three_rows, empty_world)"

section \<open>Operator trees and Close\<close>

text \<open>
  The operator structs other than the scan, the scalar aggregate and the sort, each without its \<open>input\<close> field: in the tree below an operator's input is the subtree under it.
\<close>

record FilterOp =
  predicate :: "Row \<Rightarrow> bool"

record ProjectOp =
  columnIndices :: "int list"
  project_outputSchema :: Schema
  passthrough :: bool

record LimitOp =
  limit :: int
  offset :: int
  limit_count :: int
  skipped :: int

record groupState =
  keyValues :: "Value list"
  group_states :: "aggregateState list"

record HashAggregateOp =
  groupByIndices :: "int list"
  hash_aggregates :: "AggregateExpr list"
  hash_outputSchema :: Schema
  hash_computed :: bool
  groups :: "string \<rightharpoonup> groupState"
  group_keys :: "string list"
  keyIndex :: int

text \<open>
  An operator tree as the planner builds it: a scan at the leaf, every other operator wrapping one input.
\<close>

datatype Operator =
    OpCSVScan CSVScan
  | OpFilter FilterOp Operator
  | OpProject ProjectOp Operator
  | OpScalarAggregate ScalarAggregateOp Operator
  | OpHashAggregate HashAggregateOp Operator
  | OpSort SortOp Operator
  | OpLimit LimitOp Operator

definition NewFilterOp :: "(Row \<Rightarrow> bool) \<Rightarrow> FilterOp" where
  "NewFilterOp p = \<lparr>predicate = p\<rparr>"

definition NewLimitOp :: "int \<Rightarrow> LimitOp" where
  "NewLimitOp n = \<lparr>limit = n, offset = 0, limit_count = 0, skipped = 0\<rparr>"

text \<open>
  The two loops of \<open>SortOp.Close\<close>: close every non-nil file, ignoring the result, and remove every temporary file, ignoring the result.
\<close>

definition close_files :: "nat option list \<Rightarrow> world \<Rightarrow> world" where
  "close_files fs w = foldl (\<lambda>w f. case f of Some fd \<Rightarrow> snd (File_Close fd w) | None \<Rightarrow> w) w fs"

definition remove_files :: "path list \<Rightarrow> world \<Rightarrow> world" where
  "remove_files ps w = foldl (\<lambda>w p. snd (os_Remove p w)) w ps"

text \<open>
  \<open>Close\<close> by dynamic dispatch. No \<open>Close\<close> method assigns to a field, so the result is the error and the world.
\<close>

fun Operator_Close :: "Operator \<Rightarrow> world \<Rightarrow> error option \<times> world" where
  "Operator_Close (OpCSVScan s) w = CSVScan_Close s w"
| "Operator_Close (OpFilter f inp) w = Operator_Close inp w"
| "Operator_Close (OpProject p inp) w = Operator_Close inp w"
| "Operator_Close (OpScalarAggregate s inp) w = Operator_Close inp w"
| "Operator_Close (OpHashAggregate h inp) w = Operator_Close inp w"
| "Operator_Close (OpSort s inp) w =
     (case Operator_Close inp w of
        (Some e, w1) \<Rightarrow> (Some e, w1)
      | (None, w1) \<Rightarrow> (None, remove_files (tempFiles s) (close_files (files s) w1)))"
| "Operator_Close (OpLimit l inp) w = Operator_Close inp w"

text \<open>
  The scan at the leaf of a tree, and whether its file is open or closed in a world.
\<close>

fun leaf_scan :: "Operator \<Rightarrow> CSVScan" where
  "leaf_scan (OpCSVScan s) = s"
| "leaf_scan (OpFilter f inp) = leaf_scan inp"
| "leaf_scan (OpProject p inp) = leaf_scan inp"
| "leaf_scan (OpScalarAggregate s inp) = leaf_scan inp"
| "leaf_scan (OpHashAggregate h inp) = leaf_scan inp"
| "leaf_scan (OpSort s inp) = leaf_scan inp"
| "leaf_scan (OpLimit l inp) = leaf_scan inp"

definition scan_open :: "Operator \<Rightarrow> world \<Rightarrow> bool" where
  "scan_open op w = (case scan_file (leaf_scan op) of Some f \<Rightarrow> f \<in> open_files w | None \<Rightarrow> False)"

definition scan_closed :: "Operator \<Rightarrow> world \<Rightarrow> bool" where
  "scan_closed op w = (case scan_file (leaf_scan op) of Some f \<Rightarrow> f \<notin> open_files w | None \<Rightarrow> False)"

text \<open>
  The scan \<open>NewCSVScan\<close> returns for the example file (fact \<open>example_scan_new\<close>), read by no \<open>Next\<close> yet, and a tree over it.
\<close>

definition example_scan :: CSVScan where
  "example_scan = \<lparr>reader = \<lparr>pending = [[''x'', ''y'', ''alice'']], FieldsPerRecord = 3\<rparr>,
      scan_file = Some 0,
      scan_schema = \<lparr>Columns = [''id'', ''price'', ''name''], Types = [IntType, FloatType, StringType]\<rparr>,
      firstRow = Some [''1'', ''2.5'', ''bob''], firstRowReturned = False\<rparr>"

definition example_tree :: Operator where
  "example_tree = OpLimit (NewLimitOp 10)
     (OpSort (NewSortOpWithChunkSize (scan_schema example_scan) 0 False 2)
        (OpFilter (NewFilterOp (\<lambda>row. True)) (OpCSVScan example_scan)))"

definition opened_world :: world where
  "opened_world = snd (NewCSVScan example_lib ''f.csv'' scan_world)"

chapter \<open>Properties\<close>

section \<open>Zone-map pruning\<close>

text \<open>
  C2. \<open>CanPrune\<close> returns true exactly when the column is tracked (present in both
  \<open>MinValues\<close> and \<open>MaxValues\<close>) and the condition of the specification's table
  holds for the stored bounds; for an untracked column it returns false.
\<close>

theorem CanPrune_table:
  "CanPrune zm c cmp v =
     (tracked zm c \<and> prune_iff cmp (the (MinValues zm c)) (the (MaxValues zm c)) v)"
  by (cases cmp) (auto simp: CanPrune_def tracked_def split: option.splits)

text \<open>The bounds of the specification's example: min 10, max 50, literal 5 and 30.\<close>

theorem CanPrune_table_witness:
  "CanPrune \<lparr>Filename = ''f.csv'', RowCount = 3, MinValues = [''col'' \<mapsto> 10],
             MaxValues = [''col'' \<mapsto> 50]\<rparr> ''col'' Eq 5
   \<and> \<not> CanPrune \<lparr>Filename = ''f.csv'', RowCount = 3, MinValues = [''col'' \<mapsto> 10],
             MaxValues = [''col'' \<mapsto> 50]\<rparr> ''col'' Eq 30
   \<and> \<not> CanPrune \<lparr>Filename = ''f.csv'', RowCount = 3, MinValues = [''col'' \<mapsto> 10],
             MaxValues = [''col'' \<mapsto> 50]\<rparr> ''other'' Eq 5"
  using CanPrune_table [of "\<lparr>Filename = ''f.csv'', RowCount = 3, MinValues = [''col'' \<mapsto> 10],
             MaxValues = [''col'' \<mapsto> 50]\<rparr>" "''col''" Eq 5]
    CanPrune_table [of "\<lparr>Filename = ''f.csv'', RowCount = 3, MinValues = [''col'' \<mapsto> 10],
             MaxValues = [''col'' \<mapsto> 50]\<rparr>" "''col''" Eq 30]
    CanPrune_table [of "\<lparr>Filename = ''f.csv'', RowCount = 3, MinValues = [''col'' \<mapsto> 10],
             MaxValues = [''col'' \<mapsto> 50]\<rparr>" "''other''" Eq 5]
  by (simp add: tracked_def)

section \<open>Zone-map generation\<close>

lemma zm_loop_eof: "csv_Read r = (Inl EOF, r') \<Longrightarrow> zm_loop h r st c = Inr (st, c)"
  by (subst zm_loop.simps) simp

lemma zm_loop_err: "csv_Read r = (Inl e, r') \<Longrightarrow> e \<noteq> EOF \<Longrightarrow> zm_loop h r st c = Inl (Wrap ''error reading CSV row'' e)"
  by (subst zm_loop.simps) simp

lemma zm_loop_rec: "csv_Read r = (Inr rc, r') \<Longrightarrow> zm_loop h r st c = zm_loop h r' (track_row h rc st) (wrap64 (c + 1))"
  by (subst zm_loop.simps) simp

lemma track_field_inv: "zm_inv st \<Longrightarrow> zm_inv (track_field h st iv)"
  by (cases iv) (auto simp: zm_inv_def track_field_def Let_def lookupF_def lookup0_def split: sum.splits option.splits if_splits)

lemma track_field_dom: "zm_inv st \<Longrightarrow> dom (isIntColumn (track_field h st (i, val))) =
   (if i < length h \<and> \<not> ok_int val then dom (isIntColumn st) - {h ! i} else dom (isIntColumn st))"
  by (auto simp: zm_inv_def track_field_def Let_def lookupF_def lookup0_def ok_int_def split: sum.splits option.splits if_splits)

lemma track_field_le: "zm_inv st \<Longrightarrow> zm_le (track_field h st iv) st"
  by (cases iv) (auto simp: zm_inv_def zm_le_def track_field_def Let_def lookupF_def lookup0_def split: sum.splits option.splits if_splits)

lemma zm_le_refl: "zm_le st st" by (simp add: zm_le_def)

lemma zm_le_trans: "zm_le a b \<Longrightarrow> zm_le b c \<Longrightarrow> zm_le a c"
  unfolding zm_le_def by (meson order_trans subsetD subset_trans)

lemma track_fold_inv: "zm_inv st \<Longrightarrow> zm_inv (foldl (track_field h) st ivs)"
  by (induction ivs arbitrary: st) (simp_all add: track_field_inv)

lemma track_fold_le: "zm_inv st \<Longrightarrow> zm_le (foldl (track_field h) st ivs) st"
proof (induction ivs arbitrary: st)
  case Nil
  then show ?case by (simp add: zm_le_refl)
next
  case (Cons iv ivs)
  have "zm_le (foldl (track_field h) (track_field h st iv) ivs) (track_field h st iv)"
    using Cons by (simp add: track_field_inv)
  then show ?case
    using track_field_le [OF Cons.prems, of h iv] by (auto intro: zm_le_trans)
qed

lemma track_fold_dom:
  "zm_inv st \<Longrightarrow> dom (isIntColumn (foldl (track_field h) st (enumerate k xs))) =
     dom (isIntColumn st) - {h ! (k + j) | j. j < length xs \<and> k + j < length h \<and> \<not> ok_int (xs ! j)}"
proof (induction xs arbitrary: k st)
  case Nil
  then show ?case by simp
next
  case (Cons x xs)
  have inv': "zm_inv (track_field h st (k, x))" using Cons.prems by (rule track_field_inv)
  have split: "{h ! (k + j) | j. j < length (x # xs) \<and> k + j < length h \<and> \<not> ok_int ((x # xs) ! j)}
     = (if k < length h \<and> \<not> ok_int x then {h ! k} else {})
       \<union> {h ! (Suc k + j) | j. j < length xs \<and> Suc k + j < length h \<and> \<not> ok_int (xs ! j)}"
    (is "?A = ?B \<union> ?C")
  proof (intro set_eqI iffI)
    fix c assume "c \<in> ?A"
    then obtain j where j: "c = h ! (k + j)" "j < length (x # xs)" "k + j < length h" "\<not> ok_int ((x # xs) ! j)"
      by blast
    show "c \<in> ?B \<union> ?C"
    proof (cases j)
      case 0
      with j show ?thesis by simp
    next
      case (Suc j')
      with j have "c = h ! (Suc k + j')" "j' < length xs" "Suc k + j' < length h" "\<not> ok_int (xs ! j')"
        by simp_all
      then show ?thesis by blast
    qed
  next
    fix c assume "c \<in> ?B \<union> ?C"
    then consider "c \<in> ?B" | "c \<in> ?C" by blast
    then show "c \<in> ?A"
    proof cases
      case 1
      then have "c = h ! (k + 0)" "0 < length (x # xs)" "k + 0 < length h" "\<not> ok_int ((x # xs) ! 0)"
        by (simp_all split: if_splits)
      then show ?thesis by blast
    next
      case 2
      then obtain j where "c = h ! (Suc k + j)" "j < length xs" "Suc k + j < length h" "\<not> ok_int (xs ! j)"
        by blast
      then have "c = h ! (k + Suc j)" "Suc j < length (x # xs)" "k + Suc j < length h" "\<not> ok_int ((x # xs) ! Suc j)"
        by simp_all
      then show ?thesis by blast
    qed
  qed
  have "dom (isIntColumn (foldl (track_field h) st (enumerate k (x # xs))))
      = dom (isIntColumn (track_field h st (k, x))) - ?C"
    using Cons.IH [OF inv', of "Suc k"] by simp
  also have "\<dots> = (dom (isIntColumn st) - ?B) - ?C"
    using track_field_dom [OF Cons.prems, of h k x] by auto
  also have "\<dots> = dom (isIntColumn st) - ?A"
    unfolding split by blast
  finally show ?case .
qed

lemma track_row_inv: "zm_inv st \<Longrightarrow> zm_inv (track_row h rc st)"
  by (simp add: track_row_def track_fold_inv)

lemma track_row_le: "zm_inv st \<Longrightarrow> zm_le (track_row h rc st) st"
  by (simp add: track_row_def track_fold_le)

lemma track_row_dom: "zm_inv st \<Longrightarrow> dom (isIntColumn (track_row h rc st)) = dom (isIntColumn st) - bad_columns h rc"
  using track_fold_dom [of st h 0 rc] by (simp add: track_row_def bad_columns_def)

lemma track_rows_inv: "zm_inv st \<Longrightarrow> zm_inv (foldl (\<lambda>s r. track_row h r s) st rows)"
  by (induction rows arbitrary: st) (simp_all add: track_row_inv)

lemma track_rows_le: "zm_inv st \<Longrightarrow> zm_le (foldl (\<lambda>s r. track_row h r s) st rows) st"
proof (induction rows arbitrary: st)
  case Nil
  then show ?case by (simp add: zm_le_refl)
next
  case (Cons r rows)
  have "zm_le (foldl (\<lambda>s r. track_row h r s) (track_row h r st) rows) (track_row h r st)"
    using Cons by (simp add: track_row_inv)
  then show ?case using track_row_le [OF Cons.prems, of h r] by (auto intro: zm_le_trans)
qed

lemma track_rows_dom: "zm_inv st \<Longrightarrow> dom (isIntColumn (foldl (\<lambda>s r. track_row h r s) st rows))
    = dom (isIntColumn st) - (\<Union>r \<in> set rows. bad_columns h r)"
proof (induction rows arbitrary: st)
  case Nil
  then show ?case by simp
next
  case (Cons r rows)
  show ?case using Cons.IH [OF track_row_inv [OF Cons.prems, of h r]] track_row_dom [OF Cons.prems, of h r]
    by auto
qed

lemma classify_field_inv: "zm_inv st \<Longrightarrow> zm_inv (classify_field h st iv)"
  by (cases iv) (auto simp: zm_inv_def classify_field_def split: sum.splits)

lemma classify_field_dom: "dom (isIntColumn (classify_field h st (i, val))) =
   (if i < length h \<and> ok_int val then insert (h ! i) (dom (isIntColumn st)) else dom (isIntColumn st))"
  by (auto simp: classify_field_def ok_int_def split: sum.splits)

lemma classify_fold_inv: "zm_inv st \<Longrightarrow> zm_inv (foldl (classify_field h) st ivs)"
  by (induction ivs arbitrary: st) (simp_all add: classify_field_inv)

lemma classify_fold_dom:
  "dom (isIntColumn (foldl (classify_field h) st (enumerate k xs))) =
     dom (isIntColumn st) \<union> {h ! (k + j) | j. j < length xs \<and> k + j < length h \<and> ok_int (xs ! j)}"
proof (induction xs arbitrary: k st)
  case Nil
  then show ?case by simp
next
  case (Cons x xs)
  have split: "{h ! (k + j) | j. j < length (x # xs) \<and> k + j < length h \<and> ok_int ((x # xs) ! j)}
     = (if k < length h \<and> ok_int x then {h ! k} else {})
       \<union> {h ! (Suc k + j) | j. j < length xs \<and> Suc k + j < length h \<and> ok_int (xs ! j)}"
    (is "?A = ?B \<union> ?C")
  proof (intro set_eqI iffI)
    fix c assume "c \<in> ?A"
    then obtain j where j: "c = h ! (k + j)" "j < length (x # xs)" "k + j < length h" "ok_int ((x # xs) ! j)"
      by blast
    show "c \<in> ?B \<union> ?C"
    proof (cases j)
      case 0
      with j show ?thesis by simp
    next
      case (Suc j')
      with j have "c = h ! (Suc k + j')" "j' < length xs" "Suc k + j' < length h" "ok_int (xs ! j')"
        by simp_all
      then show ?thesis by blast
    qed
  next
    fix c assume "c \<in> ?B \<union> ?C"
    then consider "c \<in> ?B" | "c \<in> ?C" by blast
    then show "c \<in> ?A"
    proof cases
      case 1
      then have "c = h ! (k + 0)" "0 < length (x # xs)" "k + 0 < length h" "ok_int ((x # xs) ! 0)"
        by (simp_all split: if_splits)
      then show ?thesis by blast
    next
      case 2
      then obtain j where "c = h ! (Suc k + j)" "j < length xs" "Suc k + j < length h" "ok_int (xs ! j)"
        by blast
      then have "c = h ! (k + Suc j)" "Suc j < length (x # xs)" "k + Suc j < length h" "ok_int ((x # xs) ! Suc j)"
        by simp_all
      then show ?thesis by blast
    qed
  qed
  have "dom (isIntColumn (foldl (classify_field h) st (enumerate k (x # xs))))
      = dom (isIntColumn (classify_field h st (k, x))) \<union> ?C"
    using Cons.IH [of "classify_field h st (k, x)" "Suc k"] by simp
  also have "\<dots> = (dom (isIntColumn st) \<union> ?B) \<union> ?C"
    using classify_field_dom [of h st k x] by auto
  also have "\<dots> = dom (isIntColumn st) \<union> ?A"
    unfolding split by blast
  finally show ?case .
qed

lemma zm_inv_init: "zm_inv zm_init" by (simp add: zm_inv_def zm_init_def)

lemma classify_row_inv: "zm_inv (classify_row h first zm_init)"
  by (simp add: classify_row_def classify_fold_inv zm_inv_init)

lemma classify_row_dom: "dom (isIntColumn (classify_row h first zm_init)) =
   {h ! i | i. i < length first \<and> i < length h \<and> ok_int (first ! i)}"
  using classify_fold_dom [of h zm_init 0 first] by (simp add: classify_row_def zm_init_def)

lemma tracked_after:
  assumes d: "distinct h" and len: "\<forall>r \<in> set (first # rest). length r = length h"
  shows "dom (isIntColumn (foldl (\<lambda>s r. track_row h r s) (classify_row h first zm_init) rest))
     = integer_columns h (first # rest)"
proof -
  have "dom (isIntColumn (foldl (\<lambda>s r. track_row h r s) (classify_row h first zm_init) rest))
     = {h ! i | i. i < length first \<and> i < length h \<and> ok_int (first ! i)} - (\<Union>r \<in> set rest. bad_columns h r)"
    by (simp add: track_rows_dom [OF classify_row_inv] classify_row_dom)
  also have "\<dots> = integer_columns h (first # rest)"
  proof (intro set_eqI iffI)
    fix c assume c: "c \<in> {h ! i | i. i < length first \<and> i < length h \<and> ok_int (first ! i)} - (\<Union>r \<in> set rest. bad_columns h r)"
    then obtain i where i: "c = h ! i" "i < length h" "ok_int (first ! i)" by blast
    have "ok_int (r ! i)" if "r \<in> set rest" for r
    proof (rule ccontr)
      assume "\<not> ok_int (r ! i)"
      moreover have "length r = length h" using len that by simp
      ultimately have "c \<in> bad_columns h r" using i by (auto simp: bad_columns_def)
      with c that show False by blast
    qed
    with i show "c \<in> integer_columns h (first # rest)" by (auto simp: integer_columns_def)
  next
    fix c assume "c \<in> integer_columns h (first # rest)"
    then obtain i where i: "c = h ! i" "i < length h" "ok_int (first ! i)" "\<forall>r \<in> set rest. ok_int (r ! i)"
      by (auto simp: integer_columns_def)
    have "c \<notin> bad_columns h r" if "r \<in> set rest" for r
    proof
      assume "c \<in> bad_columns h r"
      then obtain j where j: "c = h ! j" "j < length h" "\<not> ok_int (r ! j)" by (auto simp: bad_columns_def)
      with i d have "i = j" by (simp add: nth_eq_iff_index_eq)
      with i j that show False by blast
    qed
    moreover have "length first = length h" using len by simp
    ultimately show "c \<in> {h ! i | i. i < length first \<and> i < length h \<and> ok_int (first ! i)} - (\<Union>r \<in> set rest. bad_columns h r)"
      using i by auto
  qed
  finally show ?thesis .
qed

lemma csv_Read_ok: "0 < n \<Longrightarrow> int (length rc) = n \<Longrightarrow>
   csv_Read \<lparr>pending = rc # rest, FieldsPerRecord = n\<rparr> = (Inr rc, \<lparr>pending = rest, FieldsPerRecord = n\<rparr>)"
  by (simp add: csv_Read_def)

lemma csv_Read_eof: "csv_Read \<lparr>pending = [], FieldsPerRecord = n\<rparr> = (Inl EOF, \<lparr>pending = [], FieldsPerRecord = n\<rparr>)"
  by (simp add: csv_Read_def)

lemma zm_loop_rows:
  "0 < n \<Longrightarrow> \<forall>r \<in> set rows. int (length r) = n \<Longrightarrow>
   \<exists>c'. zm_loop h \<lparr>pending = rows, FieldsPerRecord = n\<rparr> st c = Inr (foldl (\<lambda>s r. track_row h r s) st rows, c')"
proof (induction rows arbitrary: st c)
  case Nil
  then show ?case by (simp add: zm_loop_eof [OF csv_Read_eof])
next
  case (Cons r rows)
  then have "csv_Read \<lparr>pending = r # rows, FieldsPerRecord = n\<rparr> = (Inr r, \<lparr>pending = rows, FieldsPerRecord = n\<rparr>)"
    by (simp add: csv_Read_ok)
  from zm_loop_rec [OF this] Cons show ?case by simp
qed

lemma GenerateZoneMap_rows:
  assumes "h \<noteq> []" "\<forall>r \<in> set (first # rest). length r = length h" "disk w (Path p) = Some (h # first # rest)"
  shows "\<exists>n. GenerateZoneMap p w = Inr \<lparr>Filename = p, RowCount = n,
      MinValues = minValues (foldl (\<lambda>s r. track_row h r s) (classify_row h first zm_init) rest),
      MaxValues = maxValues (foldl (\<lambda>s r. track_row h r s) (classify_row h first zm_init) rest)\<rparr>"
proof -
  let ?n = "int (length h)"
  have n: "0 < ?n" using assms(1) by simp
  have r1: "csv_Read (csv_NewReader (h # first # rest)) = (Inr h, \<lparr>pending = first # rest, FieldsPerRecord = ?n\<rparr>)"
    using n by (simp add: csv_Read_def csv_NewReader_def)
  have r2: "csv_Read \<lparr>pending = first # rest, FieldsPerRecord = ?n\<rparr> = (Inr first, \<lparr>pending = rest, FieldsPerRecord = ?n\<rparr>)"
    using n assms(2) by (simp add: csv_Read_ok)
  have "\<forall>r \<in> set rest. int (length r) = ?n" using assms(2) by simp
  from zm_loop_rows [OF n this, of h "classify_row h first zm_init" 1]
  obtain c' where "zm_loop h \<lparr>pending = rest, FieldsPerRecord = ?n\<rparr> (classify_row h first zm_init) 1
     = Inr (foldl (\<lambda>s r. track_row h r s) (classify_row h first zm_init) rest, c')" by blast
  then show ?thesis using assms(3) r1 r2 by (simp add: GenerateZoneMap_def)
qed

lemma zm_inv_the_min: "zm_inv st \<Longrightarrow> c \<in> dom (isIntColumn st) \<Longrightarrow> the (minValues st c) = lookup0 (minValues st) c"
  by (auto simp: zm_inv_def lookup0_def split: option.splits)

lemma zm_inv_the_max: "zm_inv st \<Longrightarrow> c \<in> dom (isIntColumn st) \<Longrightarrow> the (maxValues st c) = lookup0 (maxValues st) c"
  by (auto simp: zm_inv_def lookup0_def split: option.splits)

text \<open>
  The files with at least one data record: the tracked columns before and after further records are appended.
\<close>

lemma GenerateZoneMap_grow:
  assumes d: "distinct header" and ne: "header \<noteq> []" and rows: "rows \<noteq> []"
    and len: "\<forall>r \<in> set (rows @ later). length r = length header"
    and w: "disk w (Path p) = Some (header # rows)"
    and w': "disk w' (Path p) = Some (header # rows @ later)"
  shows "\<exists>zm zm'. GenerateZoneMap p w = Inr zm \<and> GenerateZoneMap p w' = Inr zm' \<and>
     dom (MinValues zm) = integer_columns header rows \<and>
     dom (MaxValues zm) = integer_columns header rows \<and>
     dom (MinValues zm') = integer_columns header (rows @ later) \<and>
     dom (MaxValues zm') = integer_columns header (rows @ later) \<and>
     integer_columns header (rows @ later) \<subseteq> integer_columns header rows \<and>
     (\<forall>c \<in> integer_columns header (rows @ later).
        the (MinValues zm' c) \<le> the (MinValues zm c) \<and> the (MaxValues zm c) \<le> the (MaxValues zm' c))"
proof -
  obtain first rest where fr: "rows = first # rest" using rows by (cases rows) auto
  let ?s0 = "classify_row header first zm_init"
  let ?s1 = "foldl (\<lambda>s r. track_row header r s) ?s0 rest"
  let ?s2 = "foldl (\<lambda>s r. track_row header r s) ?s0 (rest @ later)"
  have len1: "\<forall>r \<in> set (first # rest). length r = length header" using len fr by simp
  have len2: "\<forall>r \<in> set (first # rest @ later). length r = length header" using len fr by simp
  from GenerateZoneMap_rows [OF ne len1, of w p] w fr
  obtain n where g1: "GenerateZoneMap p w = Inr \<lparr>Filename = p, RowCount = n,
      MinValues = minValues ?s1, MaxValues = maxValues ?s1\<rparr>" by auto
  from GenerateZoneMap_rows [OF ne len2, of w' p] w' fr
  obtain n' where g2: "GenerateZoneMap p w' = Inr \<lparr>Filename = p, RowCount = n',
      MinValues = minValues ?s2, MaxValues = maxValues ?s2\<rparr>" by auto
  have inv1: "zm_inv ?s1" by (rule track_rows_inv [OF classify_row_inv])
  have inv2: "zm_inv ?s2" by (rule track_rows_inv [OF classify_row_inv])
  have t1: "dom (isIntColumn ?s1) = integer_columns header rows"
    using tracked_after [OF d len1] fr by simp
  have t2: "dom (isIntColumn ?s2) = integer_columns header (rows @ later)"
    using tracked_after [OF d len2] fr by simp
  have s2: "?s2 = foldl (\<lambda>s r. track_row header r s) ?s1 later" by simp
  have le: "zm_le ?s2 ?s1" unfolding s2 by (rule track_rows_le [OF inv1])
  have sub: "integer_columns header (rows @ later) \<subseteq> integer_columns header rows"
    using le t1 t2 by (simp add: zm_le_def)
  have mono: "the (minValues ?s2 c) \<le> the (minValues ?s1 c) \<and> the (maxValues ?s1 c) \<le> the (maxValues ?s2 c)"
    if "c \<in> integer_columns header (rows @ later)" for c
  proof -
    have c2: "c \<in> dom (isIntColumn ?s2)" using that t2 by simp
    have c1: "c \<in> dom (isIntColumn ?s1)" using that sub t1 by blast
    show ?thesis
      using le c2 zm_inv_the_min [OF inv1 c1] zm_inv_the_min [OF inv2 c2]
        zm_inv_the_max [OF inv1 c1] zm_inv_the_max [OF inv2 c2]
      unfolding zm_le_def by metis
  qed
  have d1: "dom (minValues ?s1) = integer_columns header rows" "dom (maxValues ?s1) = integer_columns header rows"
    using inv1 t1 by (simp_all add: zm_inv_def)
  have d2: "dom (minValues ?s2) = integer_columns header (rows @ later)"
    "dom (maxValues ?s2) = integer_columns header (rows @ later)"
    using inv2 t2 by (simp_all add: zm_inv_def)
  show ?thesis
    unfolding g1 g2 using d1 d2 sub mono by simp
qed

lemma GenerateZoneMap_header_only:
  assumes "h \<noteq> []" "disk w (Path p) = Some [h]"
  shows "GenerateZoneMap p w = Inr \<lparr>Filename = p, RowCount = 0, MinValues = Map.empty, MaxValues = Map.empty\<rparr>"
  using assms by (simp add: GenerateZoneMap_def csv_Read_def csv_NewReader_def zm_init_def)

lemma GenerateZoneMap_dom:
  assumes d: "distinct header" and ne: "header \<noteq> []"
    and len: "\<forall>r \<in> set rows. length r = length header"
    and w: "disk w (Path p) = Some (header # rows)"
  shows "\<exists>zm. GenerateZoneMap p w = Inr zm \<and> dom (MinValues zm) = tracked_columns header rows \<and>
           dom (MaxValues zm) = tracked_columns header rows"
proof (cases "rows = []")
  case True
  then show ?thesis using GenerateZoneMap_header_only [OF ne, of w p] w
    by (simp add: tracked_columns_def)
next
  case False
  have len': "\<forall>r \<in> set (rows @ []). length r = length header" using len by simp
  have w': "disk w (Path p) = Some (header # rows @ [])" using w by simp
  from GenerateZoneMap_grow [OF d ne False len' w w'] False
  show ?thesis by (auto simp: tracked_columns_def)
qed

text \<open>
  C8, as stated, fails: two columns of the file \<open>d.csv\<close> share the name \<open>a\<close>; its first column holds an integer in every data record, and the zone map tracks no column, because the non-integer of the second column removes the shared name.
\<close>

theorem GenerateZoneMap_duplicate_counterexample:
  "GenerateZoneMap ''d.csv'' dup_world
     = Inr \<lparr>Filename = ''d.csv'', RowCount = 3, MinValues = Map.empty, MaxValues = Map.empty\<rparr> \<and>
   ''a'' \<in> integer_columns [''a'', ''a''] [[''1'', ''2''], [''5'', ''x''], [''0'', ''0'']]"
proof -
  have "GenerateZoneMap ''d.csv'' dup_world
     = Inr \<lparr>Filename = ''d.csv'', RowCount = 3, MinValues = Map.empty, MaxValues = Map.empty\<rparr>"
    by (simp add: dup_world_def GenerateZoneMap_def csv_Read_def csv_NewReader_def zm_loop_eof zm_loop_err zm_loop_rec classify_row_def classify_field_def track_row_def track_field_def ParseInt_def ParseUint_def digit_of_def zm_init_def lookup0_def lookupF_def Let_def wrap64_def)
  moreover have "\<exists>i. ''a'' = [''a'', ''a''] ! i \<and> i < length [''a'', ''a''] \<and>
      (\<forall>r \<in> set [[''1'', ''2''], [''5'', ''x''], [''0'', ''0'']]. ok_int (r ! i))"
    by (rule exI [of _ 0]) (simp add: ok_int_def ParseInt_def ParseUint_def digit_of_def)
  then have "''a'' \<in> integer_columns [''a'', ''a''] [[''1'', ''2''], [''5'', ''x''], [''0'', ''0'']]"
    unfolding integer_columns_def by simp
  ultimately show ?thesis by simp
qed

text \<open>
  C8, amended. For a csv file with pairwise distinct column names whose records all have as many fields as the header, \<open>GenerateZoneMap\<close> returns a zone map whose tracked columns (the keys of \<open>MinValues\<close> and of \<open>MaxValues\<close>) are exactly the columns whose field parses as an integer in the first data record and in every later one; a file without data records has no tracked column. Once there is a data record, scanning further records (the same file with the records \<open>later\<close> appended) never adds a column back: the tracked columns are again exactly those that are integers in every record, a subset of the earlier ones, and for every column still tracked the minimum has not grown and the maximum has not shrunk.
\<close>

theorem GenerateZoneMap_tracking:
  assumes d: "distinct header" and ne: "header \<noteq> []"
    and len: "\<forall>r \<in> set (rows @ later). length r = length header"
    and w: "disk w (Path p) = Some (header # rows)"
    and w': "disk w' (Path p) = Some (header # rows @ later)"
  shows "\<exists>zm zm'. GenerateZoneMap p w = Inr zm \<and> GenerateZoneMap p w' = Inr zm' \<and>
     dom (MinValues zm) = tracked_columns header rows \<and>
     dom (MaxValues zm) = tracked_columns header rows \<and>
     dom (MinValues zm') = tracked_columns header (rows @ later) \<and>
     dom (MaxValues zm') = tracked_columns header (rows @ later) \<and>
     (rows \<noteq> [] \<longrightarrow>
        tracked_columns header (rows @ later) \<subseteq> tracked_columns header rows \<and>
        (\<forall>c \<in> tracked_columns header (rows @ later).
           the (MinValues zm' c) \<le> the (MinValues zm c) \<and> the (MaxValues zm c) \<le> the (MaxValues zm' c)))"
proof (cases "rows = []")
  case True
  have len1: "\<forall>r \<in> set rows. length r = length header" using len by simp
  have len2: "\<forall>r \<in> set (rows @ later). length r = length header" using len by simp
  from GenerateZoneMap_dom [OF d ne len1 w] GenerateZoneMap_dom [OF d ne len2 w'] True
  show ?thesis by auto
next
  case False
  from GenerateZoneMap_grow [OF d ne False len w w'] False
  show ?thesis by (simp add: tracked_columns_def)
qed

text \<open>
  The file \<open>f.csv\<close> with two and with three data records: \<open>id\<close> stays tracked with bounds 1 and 3, \<open>v\<close> is dropped at \<open>x\<close> and stays dropped.
\<close>

theorem GenerateZoneMap_tracking_witness:
  "\<exists>zm zm'. GenerateZoneMap ''f.csv'' zm_world1 = Inr zm \<and> GenerateZoneMap ''f.csv'' zm_world2 = Inr zm' \<and>
     dom (MinValues zm) = tracked_columns [''id'', ''v''] [[''1'', ''5''], [''3'', ''x'']] \<and>
     dom (MinValues zm') = tracked_columns [''id'', ''v''] [[''1'', ''5''], [''3'', ''x''], [''2'', ''9'']] \<and>
     MinValues zm' ''id'' = Some 1 \<and> MaxValues zm' ''id'' = Some 3 \<and> MinValues zm' ''v'' = None"
proof -
  have e: "GenerateZoneMap ''f.csv'' zm_world2 = Inr \<lparr>Filename = ''f.csv'', RowCount = 3, MinValues = [''id'' \<mapsto> 1], MaxValues = [''id'' \<mapsto> 3]\<rparr>"
    by (simp add: zm_world2_def GenerateZoneMap_def csv_Read_def csv_NewReader_def zm_loop_eof zm_loop_err zm_loop_rec classify_row_def classify_field_def track_row_def track_field_def ParseInt_def ParseUint_def digit_of_def zm_init_def lookup0_def lookupF_def Let_def wrap64_def fun_upd_twist)
  from GenerateZoneMap_tracking [of "[''id'', ''v'']" "[[''1'', ''5''], [''3'', ''x'']]" "[[''2'', ''9'']]" zm_world1 "''f.csv''" zm_world2]
  obtain zm zm' where "GenerateZoneMap ''f.csv'' zm_world1 = Inr zm" "GenerateZoneMap ''f.csv'' zm_world2 = Inr zm'"
     "dom (MinValues zm) = tracked_columns [''id'', ''v''] [[''1'', ''5''], [''3'', ''x'']]"
     "dom (MinValues zm') = tracked_columns [''id'', ''v''] [[''1'', ''5''], [''3'', ''x''], [''2'', ''9'']]"
    by (auto simp: zm_world1_def zm_world2_def)
  then show ?thesis using e by auto
qed

section \<open>Scan\<close>

lemma length_parse_fields [simp]: "length (parse_fields L tys rc) = length rc"
  by (simp add: parse_fields_def)

lemma nth_parse_fields: "i < length rc \<Longrightarrow> parse_fields L tys rc ! i =
   (if i < length tys then parseValue L (rc ! i) (tys ! i) else VString (rc ! i))"
  by (simp add: parse_fields_def nth_enumerate_eq)

lemma NewCSVScan_ok:
  assumes "disk w (Path p) = Some (header # first # rest)" "header \<noteq> []" "length first = length header"
  shows "NewCSVScan L p w = (Inr \<lparr>reader = \<lparr>pending = rest, FieldsPerRecord = int (length header)\<rparr>,
       scan_file = Some (next_file w),
       scan_schema = \<lparr>Columns = header, Types = map (inferType L) first\<rparr>,
       firstRow = Some first, firstRowReturned = False\<rparr>,
     w\<lparr>open_files := insert (next_file w) (open_files w), next_file := Suc (next_file w)\<rparr>)"
  using assms by (simp add: NewCSVScan_def os_Open_def csv_NewReader_def csv_Read_def)

lemma CSVScan_Next_first:
  "firstRow s = Some first \<Longrightarrow> \<not> firstRowReturned s \<Longrightarrow>
   CSVScan_Next L s = (Inr (Some (parse_fields L (Types (scan_schema s)) first)), s\<lparr>firstRowReturned := True\<rparr>)"
  by (simp add: CSVScan_Next_def)

lemma CSVScan_Next_record:
  "firstRowReturned s \<or> firstRow s = None \<Longrightarrow> csv_Read (reader s) = (Inr rc, r') \<Longrightarrow>
   CSVScan_Next L s = (Inr (Some (parse_fields L (Types (scan_schema s)) rc)), s\<lparr>reader := r'\<rparr>)"
  by (auto simp: CSVScan_Next_def)

lemma scan_state_after:
  assumes "0 < n" "\<forall>r \<in> set rest. int (length r) = n" "j \<le> length rest"
  shows "((\<lambda>s. snd (CSVScan_Next L s)) ^^ Suc j)
           \<lparr>reader = \<lparr>pending = rest, FieldsPerRecord = n\<rparr>, scan_file = f, scan_schema = sch,
            firstRow = Some first, firstRowReturned = False\<rparr>
         = \<lparr>reader = \<lparr>pending = drop j rest, FieldsPerRecord = n\<rparr>, scan_file = f, scan_schema = sch,
            firstRow = Some first, firstRowReturned = True\<rparr>"
  using assms(3)
proof (induction j)
  case 0
  then show ?case by (simp add: CSVScan_Next_def)
next
  case (Suc j)
  then have j: "j < length rest" by simp
  then have d: "drop j rest = rest ! j # drop (Suc j) rest" by (simp add: Cons_nth_drop_Suc)
  have "int (length (rest ! j)) = n" using assms(2) j by simp
  then have "csv_Read \<lparr>pending = drop j rest, FieldsPerRecord = n\<rparr>
     = (Inr (rest ! j), \<lparr>pending = drop (Suc j) rest, FieldsPerRecord = n\<rparr>)"
    unfolding d using assms(1) by (simp add: csv_Read_ok)
  then show ?case using Suc j by (simp add: CSVScan_Next_def)
qed

text \<open>
  C7. For a csv file whose records all have as many fields as its header, \<open>NewCSVScan\<close> fixes the column types from the first data record, and the call of \<open>Next\<close> that reads data record \<open>k + 2\<close> (after \<open>k + 1\<close> earlier calls) returns a row, not an error: its value \<open>i\<close> is the field parsed with the type inferred from the first record, and where an Integer or Float column's field does not parse it is the integer 0 or the float 0.
\<close>

theorem CSVScan_Next_later_rows:
  assumes fl: "disk w (Path p) = Some (header # first # rest)" and ne: "header \<noteq> []"
    and len: "\<forall>r \<in> set (first # rest). length r = length header" and k: "k < length rest"
  shows "\<exists>s0 w' s' row.
     NewCSVScan L p w = (Inr s0, w') \<and>
     Types (scan_schema s0) = map (inferType L) first \<and>
     CSVScan_Next L (((\<lambda>s. snd (CSVScan_Next L s)) ^^ Suc k) s0) = (Inr (Some row), s') \<and>
     length row = length header \<and>
     (\<forall>i < length header. row ! i =
        (case inferType L (first ! i) of
           IntType \<Rightarrow> (case ParseInt (rest ! k ! i) of Inr v \<Rightarrow> VInt v | Inl _ \<Rightarrow> VInt 0)
         | FloatType \<Rightarrow> (case ParseFloat L (rest ! k ! i) of Some v \<Rightarrow> VFloat v | None \<Rightarrow> VFloat 0)
         | StringType \<Rightarrow> VString (rest ! k ! i)))"
proof -
  let ?n = "int (length header)"
  let ?sch = "\<lparr>Columns = header, Types = map (inferType L) first\<rparr>"
  let ?init = "\<lparr>reader = \<lparr>pending = rest, FieldsPerRecord = ?n\<rparr>, scan_file = Some (next_file w),
       scan_schema = ?sch, firstRow = Some first, firstRowReturned = False\<rparr>"
  let ?cur = "\<lparr>reader = \<lparr>pending = drop k rest, FieldsPerRecord = ?n\<rparr>, scan_file = Some (next_file w),
       scan_schema = ?sch, firstRow = Some first, firstRowReturned = True\<rparr>"
  have lf: "length first = length header" using len by simp
  have n: "0 < ?n" using ne by simp
  have lr: "\<forall>r \<in> set rest. int (length r) = ?n" using len by simp
  have new: "NewCSVScan L p w = (Inr ?init,
     w\<lparr>open_files := insert (next_file w) (open_files w), next_file := Suc (next_file w)\<rparr>)"
    by (rule NewCSVScan_ok [OF fl ne lf])
  have st: "((\<lambda>s. snd (CSVScan_Next L s)) ^^ Suc k) ?init = ?cur"
    using scan_state_after [OF n lr, of k L "Some (next_file w)" ?sch first] k by simp
  have d: "drop k rest = rest ! k # drop (Suc k) rest" using k by (simp add: Cons_nth_drop_Suc)
  have lk: "length (rest ! k) = length header" using len k by simp
  have rd: "csv_Read (reader ?cur) = (Inr (rest ! k), \<lparr>pending = drop (Suc k) rest, FieldsPerRecord = ?n\<rparr>)"
    using n lk by (simp add: d csv_Read_ok)
  define row where "row = parse_fields L (map (inferType L) first) (rest ! k)"
  define w' where "w' = w\<lparr>open_files := insert (next_file w) (open_files w), next_file := Suc (next_file w)\<rparr>"
  define s0 where "s0 = ?init"
  define s' where "s' = ?cur\<lparr>reader := \<lparr>pending = drop (Suc k) rest, FieldsPerRecord = ?n\<rparr>\<rparr>"
  have "CSVScan_Next L ?cur = (Inr (Some row), s')"
    using CSVScan_Next_record [of ?cur "rest ! k" _ L, OF _ rd] by (simp add: row_def s'_def)
  then have nx: "CSVScan_Next L (((\<lambda>s. snd (CSVScan_Next L s)) ^^ Suc k) s0) = (Inr (Some row), s')"
    by (simp only: st s0_def)
  have vals: "\<forall>i < length header. row ! i =
        (case inferType L (first ! i) of
           IntType \<Rightarrow> (case ParseInt (rest ! k ! i) of Inr v \<Rightarrow> VInt v | Inl _ \<Rightarrow> VInt 0)
         | FloatType \<Rightarrow> (case ParseFloat L (rest ! k ! i) of Some v \<Rightarrow> VFloat v | None \<Rightarrow> VFloat 0)
         | StringType \<Rightarrow> VString (rest ! k ! i))"
    using lk lf by (simp add: row_def nth_parse_fields parseValue_def)
  have new': "NewCSVScan L p w = (Inr s0, w')" using new by (simp add: s0_def w'_def)
  have ty: "Types (scan_schema s0) = map (inferType L) first" by (simp add: s0_def)
  have lrow: "length row = length header" using lk by (simp add: row_def)
  from new' ty nx lrow vals show ?thesis by blast
qed

text \<open>
  The second record \<open>x, y, alice\<close> of the example is returned as \<open>0, 0.0, alice\<close>.
\<close>

theorem CSVScan_Next_later_rows_witness:
  "\<exists>s0 w'. NewCSVScan example_lib ''f.csv'' scan_world = (Inr s0, w') \<and>
      Types (scan_schema s0) = [IntType, FloatType, StringType] \<and>
      fst (CSVScan_Next example_lib (snd (CSVScan_Next example_lib s0)))
        = Inr (Some [VInt 0, VFloat 0, VString ''alice''])"
proof -
  from CSVScan_Next_later_rows [of scan_world "''f.csv''" "[''id'', ''price'', ''name'']"
      "[''1'', ''2.5'', ''bob'']" "[[''x'', ''y'', ''alice'']]" 0 example_lib]
  obtain s0 w' s' row where
    a: "NewCSVScan example_lib ''f.csv'' scan_world = (Inr s0, w')" and
    b: "Types (scan_schema s0) = map (inferType example_lib) [''1'', ''2.5'', ''bob'']" and
    c: "CSVScan_Next example_lib (snd (CSVScan_Next example_lib s0)) = (Inr (Some row), s')" and
    d: "length row = 3" and
    e: "\<forall>i < 3. row ! i =
        (case inferType example_lib ([''1'', ''2.5'', ''bob''] ! i) of
           IntType \<Rightarrow> (case ParseInt ([[''x'', ''y'', ''alice'']] ! 0 ! i) of Inr v \<Rightarrow> VInt v | Inl _ \<Rightarrow> VInt 0)
         | FloatType \<Rightarrow> (case ParseFloat example_lib ([[''x'', ''y'', ''alice'']] ! 0 ! i) of Some v \<Rightarrow> VFloat v | None \<Rightarrow> VFloat 0)
         | StringType \<Rightarrow> VString ([[''x'', ''y'', ''alice'']] ! 0 ! i))"
    by (auto simp: scan_world_def)
  have ty: "map (inferType example_lib) [''1'', ''2.5'', ''bob''] = [IntType, FloatType, StringType]"
    by (simp add: inferType_def example_lib_def ParseInt_def ParseUint_def digit_of_def)
  have "row ! 0 = VInt 0" "row ! 1 = VFloat 0" "row ! 2 = VString ''alice''"
    using e by (simp_all add: inferType_def example_lib_def ParseInt_def ParseUint_def digit_of_def)
  then have "row = [VInt 0, VFloat 0, VString ''alice'']"
    using d by (cases row; cases "tl row"; cases "tl (tl row)") auto
  with a b c ty show ?thesis by simp
qed

section \<open>Filter comparison, group keys and scalar aggregation\<close>

text \<open>
  C5, as stated, fails: for the row value 1 and the literal 1.5 the code's \<open>=\<close> differs from the exact comparison of 1.0 with 1.5 (the code answers true).
\<close>

theorem compare_int_float_counterexample:
  "compare example_lib (VInt 1) Eq (VFloat 1.5) \<noteq> promoted_compare 1 Eq 1.5"
  by (simp add: compare_def toInt64_def float_to_int64_def trunc_toward_zero_def in_int64_def
      compareInt64_def promoted_compare_def compareFloat64_def)

text \<open>
  C5, amended. When the row value is an integer and the literal a float, the literal is converted by \<open>int64(val)\<close> and the comparison is decided on the two integers, for every comparator and every float literal. The conversion truncates toward zero when the truncated literal lies in the range of \<open>int64\<close>, and is the most negative integer otherwise. The result agrees with the exact comparison of the promoted integer whenever the literal is a whole number in the range of \<open>int64\<close>.
\<close>

theorem compare_int_float_truncates:
  "compare L (VInt a) cmp (VFloat f) = compareInt64 a cmp (float_to_int64 f) \<and>
   (in_int64 (trunc_toward_zero f) \<longrightarrow> float_to_int64 f = trunc_toward_zero f) \<and>
   (\<not> in_int64 (trunc_toward_zero f) \<longrightarrow> float_to_int64 f = - (2 ^ 63)) \<and>
   (in_int64 (trunc_toward_zero f) \<and> of_int (trunc_toward_zero f) = f \<longrightarrow>
      compare L (VInt a) cmp (VFloat f) = promoted_compare a cmp f)"
proof -
  have 1: "compare L (VInt a) cmp (VFloat f) = compareInt64 a cmp (float_to_int64 f)"
    by (simp add: compare_def toInt64_def)
  have 2: "compareInt64 a cmp (float_to_int64 f) = promoted_compare a cmp f"
    if "in_int64 (trunc_toward_zero f)" "of_int (trunc_toward_zero f) = f"
  proof -
    define m where "m = trunc_toward_zero f"
    with that have f: "f = of_int m" by simp
    have "float_to_int64 f = m" using that(1) by (simp add: float_to_int64_def m_def)
    then show ?thesis unfolding f
      by (cases cmp) (simp_all add: compareInt64_def promoted_compare_def compareFloat64_def)
  qed
  from 1 2 show ?thesis by (simp add: float_to_int64_def)
qed

text \<open>
  At the literal 1.5: 2 is greater, 1 is equal, and 1 is not less. At the literal \<open>10^19\<close>, beyond the range of \<open>int64\<close>: 5 is not less. At the whole literal 2 the answer for 1 is that of the exact comparison.
\<close>

theorem compare_int_float_truncates_witness:
  "compare example_lib (VInt 2) Gt (VFloat 1.5) \<and> compare example_lib (VInt 1) Eq (VFloat 1.5)
   \<and> \<not> compare example_lib (VInt 1) Lt (VFloat 1.5)
   \<and> \<not> compare example_lib (VInt 5) Lt (VFloat (10 ^ 19))
   \<and> compare example_lib (VInt 1) Lt (VFloat 2) = promoted_compare 1 Lt 2"
proof -
  have a: "compare example_lib (VInt 2) Gt (VFloat 1.5)"
    using compare_int_float_truncates [of example_lib 2 Gt "1.5"]
    by (simp add: trunc_toward_zero_def in_int64_def compareInt64_def)
  have b: "compare example_lib (VInt 1) Eq (VFloat 1.5)"
    using compare_int_float_truncates [of example_lib 1 Eq "1.5"]
    by (simp add: trunc_toward_zero_def in_int64_def compareInt64_def)
  have c: "\<not> compare example_lib (VInt 1) Lt (VFloat 1.5)"
    using compare_int_float_truncates [of example_lib 1 Lt "1.5"]
    by (simp add: trunc_toward_zero_def in_int64_def compareInt64_def)
  have d: "\<not> compare example_lib (VInt 5) Lt (VFloat (10 ^ 19))"
    using compare_int_float_truncates [of example_lib 5 Lt "10 ^ 19"]
    by (simp add: trunc_toward_zero_def in_int64_def compareInt64_def)
  have "in_int64 (trunc_toward_zero 2) \<and> of_int (trunc_toward_zero 2) = (2::real)"
    by (simp add: trunc_toward_zero_def in_int64_def)
  with compare_int_float_truncates [of example_lib 1 Lt 2]
  have e: "compare example_lib (VInt 1) Lt (VFloat 2) = promoted_compare 1 Lt 2"
    by blast
  from a b c d e show ?thesis by simp
qed

text \<open>
  C6. Two rows with different group-by values and the same key: the separator byte occurs inside a value.
\<close>

theorem buildGroupKey_collision:
  "keyValues_of [0, 1] nul_row1 \<noteq> keyValues_of [0, 1] nul_row2 \<and>
   buildGroupKey example_lib [0, 1] nul_row1 = buildGroupKey example_lib [0, 1] nul_row2"
  by (simp add: keyValues_of_def buildGroupKey_def nul_row1_def nul_row2_def Sprint_v_def)

lemma zip_replicate_map: "zip (replicate (length xs) c) xs = map (\<lambda>x. (c, x)) xs"
  by (induction xs) auto

lemma finalize_initial: "finalizeState L initial_state agg = empty_input_value agg"
  by (simp add: finalizeState_def initial_state_def empty_input_value_def split: AggregateType.splits)

lemma scalar_first_empty:
  "ScalarAggregateOp_Next L (NewScalarAggregateOp aggs) [] =
     (Inr (Some (map empty_input_value aggs)),
      (NewScalarAggregateOp aggs)\<lparr>computed := True, resultRow := Some (map empty_input_value aggs)\<rparr>, [])"
  by (simp add: ScalarAggregateOp_Next_def NewScalarAggregateOp_def zip_replicate_map o_def finalize_initial Let_def)

lemma scalar_computed: "computed s \<Longrightarrow> ScalarAggregateOp_Next L s inp = (Inr None, s, inp)"
  by (simp add: ScalarAggregateOp_Next_def)

lemma scalar_step_computed: "computed (fst si) \<Longrightarrow> (scalar_step L ^^ n) si = si"
  by (induction n) (simp_all add: scalar_step_def scalar_computed)

text \<open>
  C9. Over an upstream that yields no row, the first \<open>Next\<close> of a fresh scalar aggregate returns one row holding, per aggregate, the integer 0 for Count, the float 0 for Sum and nil for Min, Max and Avg; every later call returns end-of-stream.
\<close>

theorem scalar_aggregate_empty_input:
  "scalar_result L (NewScalarAggregateOp aggs, []) = Inr (Some (map empty_input_value aggs)) \<and>
   scalar_result L ((scalar_step L ^^ Suc n) (NewScalarAggregateOp aggs, [])) = Inr None"
proof -
  let ?s1 = "(NewScalarAggregateOp aggs)\<lparr>computed := True, resultRow := Some (map empty_input_value aggs)\<rparr>"
  have 1: "scalar_step L (NewScalarAggregateOp aggs, []) = (?s1, [])"
    by (simp add: scalar_step_def scalar_first_empty)
  have "(scalar_step L ^^ Suc n) (NewScalarAggregateOp aggs, []) = (scalar_step L ^^ n) (?s1, [])"
    by (simp add: funpow_swap1 1)
  also have "\<dots> = (?s1, [])" by (rule scalar_step_computed) simp
  finally show ?thesis
    by (simp add: scalar_result_def scalar_first_empty scalar_computed)
qed

theorem scalar_aggregate_empty_input_witness:
  "scalar_result example_lib (NewScalarAggregateOp five_aggregates, [])
     = Inr (Some [VInt 0, VFloat 0, VNil, VNil, VNil]) \<and>
   scalar_result example_lib ((scalar_step example_lib ^^ 2) (NewScalarAggregateOp five_aggregates, [])) = Inr None"
  using scalar_aggregate_empty_input [of example_lib five_aggregates 1]
  by (simp add: five_aggregates_def empty_input_value_def numeral_2_eq_2)

lemma aggregate_loop_rows:
  "aggregate_loop L aggs states (map Inr rows) = (Inr (foldl (update_states L aggs) states rows), [])"
  by (induction rows arbitrary: states) simp_all

lemma length_update_states: "length states = length aggs \<Longrightarrow> length (update_states L aggs states row) = length aggs"
  by (simp add: update_states_def)

lemma nth_update_states: "length states = length aggs \<Longrightarrow> i < length aggs \<Longrightarrow>
   update_states L aggs states row ! i = updateState L (states ! i) (aggs ! i) row"
  by (simp add: update_states_def)

lemma foldl_update_states:
  "length states = length aggs \<Longrightarrow> i < length aggs \<Longrightarrow>
   length (foldl (update_states L aggs) states rows) = length aggs \<and>
   foldl (update_states L aggs) states rows ! i
     = foldl (\<lambda>st row. updateState L st (aggs ! i) row) (states ! i) rows"
  by (induction rows arbitrary: states) (simp_all add: length_update_states nth_update_states)

lemma wrap64_id: "in_int64 v \<Longrightarrow> wrap64 v = v"
  by (simp add: wrap64_def in_int64_def)

lemma updateState_no_numeric:
  assumes "\<not> numeric_at L (agg_ColumnIndex agg) row" "agg_Type agg \<noteq> Count"
  shows "updateState L st agg row = st\<lparr>st_count := wrap64 (st_count st + 1)\<rparr>"
  using assms by (auto simp: updateState_def numeric_at_def Let_def split: option.splits)

lemma st_count_updateState: "st_count (updateState L st agg row) = wrap64 (st_count st + 1)"
  by (simp add: updateState_def Let_def split: option.splits)

lemma st_count_fold:
  "st_count st = int k \<Longrightarrow> k + length rows < 2 ^ 63 \<Longrightarrow>
   st_count (foldl (\<lambda>st row. updateState L st agg row) st rows) = int (k + length rows)"
proof (induction rows arbitrary: st k)
  case Nil
  then show ?case by simp
next
  case (Cons r rows)
  have "in_int64 (int k + 1)" using Cons.prems(2) by (simp add: in_int64_def)
  then have "st_count (updateState L st agg r) = int (Suc k)"
    using Cons.prems(1) by (simp add: st_count_updateState wrap64_id)
  from Cons.IH [OF this] Cons.prems(2) show ?case by simp
qed

lemma fold_no_numeric:
  assumes "\<forall>row \<in> set rows. \<not> numeric_at L (agg_ColumnIndex agg) row" "agg_Type agg \<noteq> Count"
  shows "hasData (foldl (\<lambda>st row. updateState L st agg row) st rows) = hasData st \<and>
         st_sum (foldl (\<lambda>st row. updateState L st agg row) st rows) = st_sum st"
  using assms(1)
proof (induction rows arbitrary: st)
  case Nil
  then show ?case by simp
next
  case (Cons r rows)
  then have "updateState L st agg r = st\<lparr>st_count := wrap64 (st_count st + 1)\<rparr>"
    using assms(2) by (simp add: updateState_no_numeric)
  with Cons show ?case by simp
qed

text \<open>
  C10. Over a non-empty input (of fewer than \<open>2 ^ 63\<close> rows) in which no row holds a number in the column of aggregate \<open>i\<close>, the row returned by the first \<open>Next\<close> holds at position \<open>i\<close>: the number of rows for Count (the count is incremented on every row), the float 0 for Avg (the sum 0 divided by the positive count; rounding keeps 0), and nil for Min and for Max.
\<close>

theorem scalar_aggregate_no_numeric:
  assumes i: "i < length aggs" and ne: "rows \<noteq> []" and n: "length rows < 2 ^ 63"
    and nonnum: "\<forall>row \<in> set rows. \<not> numeric_at L (agg_ColumnIndex (aggs ! i)) row"
    and r0: "round64 L 0 = 0"
  shows "\<exists>vals s'.
     ScalarAggregateOp_Next L (NewScalarAggregateOp aggs) (map Inr rows) = (Inr (Some vals), s', []) \<and>
     length vals = length aggs \<and>
     (agg_Type (aggs ! i) = Count \<longrightarrow> vals ! i = VInt (int (length rows))) \<and>
     (agg_Type (aggs ! i) = Avg \<longrightarrow> vals ! i = VFloat 0) \<and>
     (agg_Type (aggs ! i) = MinAgg \<longrightarrow> vals ! i = VNil) \<and>
     (agg_Type (aggs ! i) = MaxAgg \<longrightarrow> vals ! i = VNil)"
proof -
  let ?init = "replicate (length aggs) initial_state"
  let ?states = "foldl (update_states L aggs) ?init rows"
  let ?st = "foldl (\<lambda>st row. updateState L st (aggs ! i) row) initial_state rows"
  define vals where "vals = map (\<lambda>(st, agg). finalizeState L st agg) (zip ?states aggs)"
  define s' where "s' = (NewScalarAggregateOp aggs)\<lparr>computed := True, resultRow := Some vals\<rparr>"
  have fs: "length ?states = length aggs" "?states ! i = ?st"
    using foldl_update_states [of ?init aggs i L rows] i by simp_all
  have nx: "ScalarAggregateOp_Next L (NewScalarAggregateOp aggs) (map Inr rows) = (Inr (Some vals), s', [])"
    by (simp add: ScalarAggregateOp_Next_def NewScalarAggregateOp_def aggregate_loop_rows Let_def
        vals_def s'_def)
  have len: "length vals = length aggs" using fs by (simp add: vals_def)
  have vi: "vals ! i = finalizeState L ?st (aggs ! i)" using fs i by (simp add: vals_def)
  have cnt: "st_count ?st = int (length rows)"
    using st_count_fold [of initial_state 0 rows L "aggs ! i"] n by (simp add: initial_state_def)
  have pos: "st_count ?st \<noteq> 0" using cnt ne by simp
  have nodata: "\<not> hasData ?st \<and> st_sum ?st = 0" if "agg_Type (aggs ! i) \<noteq> Count"
    using fold_no_numeric [OF nonnum that, of initial_state] by (simp add: initial_state_def)
  have "agg_Type (aggs ! i) = Count \<longrightarrow> vals ! i = VInt (int (length rows))"
    using cnt by (simp add: vi finalizeState_def)
  moreover have "agg_Type (aggs ! i) = Avg \<longrightarrow> vals ! i = VFloat 0"
    using pos nodata r0 by (simp add: vi finalizeState_def)
  moreover have "agg_Type (aggs ! i) = MinAgg \<longrightarrow> vals ! i = VNil"
    using nodata by (simp add: vi finalizeState_def)
  moreover have "agg_Type (aggs ! i) = MaxAgg \<longrightarrow> vals ! i = VNil"
    using nodata by (simp add: vi finalizeState_def)
  ultimately show ?thesis using nx len by blast
qed

theorem scalar_aggregate_no_numeric_witness:
  "scalar_result example_lib (NewScalarAggregateOp five_aggregates, map Inr text_rows)
     = Inr (Some [VInt 3, VFloat 0, VNil, VNil, VFloat 0])"
proof -
  have h: "\<forall>row \<in> set text_rows. \<not> numeric_at example_lib 0 row"
    by (simp add: text_rows_def numeric_at_def toNumericValue_def)
  have idx: "agg_ColumnIndex (five_aggregates ! 4) = 0" "agg_Type (five_aggregates ! 4) = Avg"
    "length five_aggregates = 5"
    by (simp_all add: five_aggregates_def)
  from scalar_aggregate_no_numeric [of 4 five_aggregates text_rows example_lib]
  obtain vals s' where
    "ScalarAggregateOp_Next example_lib (NewScalarAggregateOp five_aggregates) (map Inr text_rows)
       = (Inr (Some vals), s', [])" "vals ! 4 = VFloat 0"
    using h idx by (auto simp: text_rows_def example_lib_def)
  moreover have "ScalarAggregateOp_Next example_lib (NewScalarAggregateOp five_aggregates) (map Inr text_rows)
     = (Inr (Some [VInt 3, VFloat 0, VNil, VNil, VFloat 0]),
        (NewScalarAggregateOp five_aggregates)\<lparr>computed := True,
           resultRow := Some [VInt 3, VFloat 0, VNil, VNil, VFloat 0]\<rparr>, [])"
    by (simp add: ScalarAggregateOp_Next_def NewScalarAggregateOp_def five_aggregates_def text_rows_def
        update_states_def updateState_def finalizeState_def initial_state_def toNumericValue_def
        wrap64_def example_lib_def Let_def)
  ultimately show ?thesis by (simp add: scalar_result_def)
qed

section \<open>External merge sort: the heap holds one row per run\<close>

lemma length_swap [simp]: "length (swap xs i j) = length xs"
  by (simp add: swap_def)

lemma mset_swap' [simp]: "i < length xs \<Longrightarrow> j < length xs \<Longrightarrow> mset (swap xs i j) = mset xs"
  by (simp add: swap_def mset_swap)

lemma heap_up_mset: "j < length xs \<Longrightarrow> mset (heap_up lt xs j) = mset xs \<and> length (heap_up lt xs j) = length xs"
proof (induction lt xs j rule: heap_up.induct)
  case (1 lt xs j)
  show ?case
  proof (cases "(j - 1) div 2 = j \<or> \<not> lt (xs ! j) (xs ! ((j - 1) div 2))")
    case True
    then show ?thesis by (subst (1 2) heap_up.simps) (simp add: Let_def)
  next
    case False
    have lt: "(j - 1) div 2 < length xs" using "1.prems" by simp
    from False have "heap_up lt xs j = heap_up lt (swap xs ((j - 1) div 2) j) ((j - 1) div 2)"
      by (subst heap_up.simps) (simp add: Let_def)
    moreover have "mset (heap_up lt (swap xs ((j - 1) div 2) j) ((j - 1) div 2)) = mset (swap xs ((j - 1) div 2) j)
       \<and> length (heap_up lt (swap xs ((j - 1) div 2) j) ((j - 1) div 2)) = length (swap xs ((j - 1) div 2) j)"
      using "1.IH" [OF refl] False lt by simp
    ultimately show ?thesis using lt "1.prems" by simp
  qed
qed

lemma heap_down_leaf: "2 * i + 1 \<ge> n \<Longrightarrow> heap_down lt xs i n = xs"
  by (subst heap_down.simps) (simp add: Let_def)

lemma heap_down_stop: "2 * i + 1 < n \<Longrightarrow> \<not> lt (xs ! down_child lt xs i n) (xs ! i) \<Longrightarrow> heap_down lt xs i n = xs"
  by (subst heap_down.simps) (auto simp: Let_def down_child_def)

lemma heap_down_rec: "2 * i + 1 < n \<Longrightarrow> lt (xs ! down_child lt xs i n) (xs ! i) \<Longrightarrow>
   heap_down lt xs i n = heap_down lt (swap xs i (down_child lt xs i n)) (down_child lt xs i n) n"
  by (subst heap_down.simps) (auto simp: Let_def down_child_def)

lemma down_child_bounds: "2 * i + 1 < n \<Longrightarrow> down_child lt xs i n < n \<and> i < down_child lt xs i n"
  by (simp add: down_child_def)

lemma heap_down_induct [consumes 0, case_names leaf stop step]:
  assumes "\<And>xs i. 2 * i + 1 \<ge> n \<Longrightarrow> P xs i"
    and "\<And>xs i. 2 * i + 1 < n \<Longrightarrow> \<not> lt (xs ! down_child lt xs i n) (xs ! i) \<Longrightarrow> P xs i"
    and "\<And>xs i. 2 * i + 1 < n \<Longrightarrow> lt (xs ! down_child lt xs i n) (xs ! i) \<Longrightarrow>
           P (swap xs i (down_child lt xs i n)) (down_child lt xs i n) \<Longrightarrow> P xs i"
  shows "P xs i"
proof (induction "n - i" arbitrary: xs i rule: less_induct)
  case less
  show ?case
  proof (cases "2 * i + 1 \<ge> n")
    case True
    then show ?thesis by (rule assms(1))
  next
    case False
    then have lt: "2 * i + 1 < n" by simp
    show ?thesis
    proof (cases "lt (xs ! down_child lt xs i n) (xs ! i)")
      case False
      with lt show ?thesis by (rule assms(2))
    next
      case True
      have "n - down_child lt xs i n < n - i" using down_child_bounds [OF lt, of lt xs] by linarith
      from less [OF this] assms(3) [OF lt True] show ?thesis by blast
    qed
  qed
qed

lemma heap_down_mset: "n \<le> length xs \<Longrightarrow> mset (heap_down lt xs i n) = mset xs \<and> length (heap_down lt xs i n) = length xs"
proof (induction xs i rule: heap_down_induct [where n = n and lt = lt])
  case (leaf xs i)
  then show ?case by (simp add: heap_down_leaf)
next
  case (stop xs i)
  then show ?case by (simp add: heap_down_stop)
next
  case (step xs i)
  have "down_child lt xs i n < length xs" "i < length xs"
    using down_child_bounds [OF step(1), of lt xs] step.prems by linarith+
  then show ?case using step by (simp add: heap_down_rec)
qed

lemma heap_Push_mset: "mset (heap_Push lt xs x) = mset xs + {#x#} \<and> length (heap_Push lt xs x) = Suc (length xs)"
  using heap_up_mset [of "length xs" "xs @ [x]" lt] by (simp add: heap_Push_def)

lemma heap_Pop_mset:
  assumes "xs \<noteq> []" "heap_Pop lt xs = (it, rest)"
  shows "mset xs = mset rest + {#it#} \<and> length rest = length xs - 1"
proof -
  let ?n = "length xs - 1"
  let ?ys = "heap_down lt (swap xs 0 ?n) 0 ?n"
  have n: "?n < length xs" using assms(1) by (cases xs) auto
  have z: "0 < length xs" using assms(1) by simp
  have ys: "mset ?ys = mset xs" "length ?ys = length xs"
    using heap_down_mset [of ?n "swap xs 0 ?n" lt 0] n z by simp_all
  then have ne: "?ys \<noteq> []" using assms(1) by auto
  have "it = last ?ys" "rest = butlast ?ys" using assms(2) by (simp_all add: heap_Pop_def Let_def)
  moreover have "mset ?ys = mset (butlast ?ys) + {#last ?ys#}"
    using ne by (metis append_butlast_last_id mset.simps(1) mset.simps(2) mset_append add.commute union_mset_add_mset_left add.right_neutral)
  ultimately show ?thesis using ys by simp
qed

lemma items_push: "mset (items (mergeHeap_push h x)) = mset (x # items h)"
  by (simp add: mergeHeap_push_def heap_Push_mset)

lemma push_distinct:
  "distinct (map fileIndex (items (mergeHeap_push h x))) = (fileIndex x \<notin> fileIndex ` set (items h) \<and> distinct (map fileIndex (items h)))"
proof -
  have "mset (map fileIndex (items (mergeHeap_push h x))) = mset (map fileIndex (x # items h))"
    using items_push [of h x] by (metis mset_map)
  from mset_eq_imp_distinct_iff [OF this] show ?thesis by simp
qed

lemma length_items_push: "length (items (mergeHeap_push h x)) = Suc (length (items h))"
  by (simp add: mergeHeap_push_def heap_Push_mset)

lemma push_set: "set (items (mergeHeap_push h x)) = insert x (set (items h))"
  using mset_eq_setD [OF items_push [of h x]] by simp

lemma one_row_per_run_bound:
  assumes "one_row_per_run s"
  shows "heap_size s \<le> length (tempFiles s)"
proof (cases "merge_heap s")
  case None
  then show ?thesis by (simp add: heap_size_def)
next
  case (Some h)
  with assms have d: "distinct (map fileIndex (items h))"
    and b: "\<forall>it \<in> set (items h). fileIndex it < length (tempFiles s)"
    by (simp_all add: one_row_per_run_def)
  have "length (items h) = card (set (map fileIndex (items h)))"
    using distinct_card [OF d] by simp
  also have "\<dots> \<le> card {..< length (tempFiles s)}"
    using b by (intro card_mono) auto
  finally show ?thesis using Some by (simp add: heap_size_def)
qed

lemma run_ext_inv: "run_ext s s' \<Longrightarrow> one_row_per_run s \<Longrightarrow> one_row_per_run s'"
  by (auto simp: run_ext_def one_row_per_run_def split: option.splits)

lemma run_ext_refl: "run_ext s s" by (simp add: run_ext_def)

lemma run_ext_trans: "run_ext a b \<Longrightarrow> run_ext b c \<Longrightarrow> run_ext a c" by (simp add: run_ext_def)

lemma flushChunk_ext: "flushChunk L s chunk w = (e, s', w') \<Longrightarrow> run_ext s s'"
  by (auto simp: flushChunk_def Let_def run_ext_def)

lemma prepare_loop_ext: "prepare_loop L s chunk inp w = (e, s', chunk', inp', w') \<Longrightarrow> run_ext s s'"
proof (induction L s chunk inp w rule: prepare_loop.induct)
  case (1 L s chunk w)
  then show ?case by (simp add: run_ext_refl)
next
  case (2 L s chunk e rest w)
  then show ?case by (simp add: run_ext_refl)
next
  case (3 L s chunk row rest w)
  show ?case
  proof (cases "int (length (chunk @ [row])) \<ge> chunkSize s")
    case True
    obtain e1 s1 w1 where f: "flushChunk L s (chunk @ [row]) w = (e1, s1, w1)" by (metis prod_cases3)
    have ext1: "run_ext s s1" by (rule flushChunk_ext [OF f])
    show ?thesis
    proof (cases e1)
      case None
      with "3.prems" True f have "prepare_loop L s1 [] rest w1 = (e, s', chunk', inp', w')" by simp
      from "3.IH"(1) [OF True _ _ _ this] f None have "run_ext s1 s'" by simp
      with ext1 show ?thesis by (rule run_ext_trans)
    next
      case (Some a)
      with "3.prems" True f have "s' = s1" by simp
      with ext1 show ?thesis by simp
    qed
  next
    case False
    with "3.prems" have "prepare_loop L s (chunk @ [row]) rest w = (e, s', chunk', inp', w')" by simp
    from "3.IH"(2) [OF False this] show ?thesis .
  qed
qed

lemma setupMerge_loop_inv:
  "loop_inv k s \<Longrightarrow> setupMerge_loop L s w (enumerate k ps) = (e, s', w') \<Longrightarrow>
   loop_inv (k + length ps) s' \<and> tempFiles s' = tempFiles s"
proof (induction ps arbitrary: k s w)
  case Nil
  then show ?case by simp
next
  case (Cons p ps)
  from Cons.prems(1) obtain h where h: "merge_heap s = Some h" "distinct (map fileIndex (items h))"
    "\<forall>it \<in> set (items h). fileIndex it < k" by (auto simp: loop_inv_def)
  have weaken: "loop_inv (Suc k) t" if "merge_heap t = merge_heap s" for t
    using h that by (auto simp: loop_inv_def intro: less_SucI)
  obtain ro w1 where o: "os_Open p w = (ro, w1)" by (cases "os_Open p w")
  show ?case
  proof (cases ro)
    case (Inl er)
    with Cons.prems o have "s' = s" by simp
    then show ?thesis using weaken [of s] h Cons.prems(1)
      by (auto simp: loop_inv_def intro: less_le_trans)
  next
    case (Inr fd)
    obtain f d where fd: "fd = (f, d)" by (cases fd)
    obtain rr r' where r: "csv_Read (csv_NewReader d) = (rr, r')" by (cases "csv_Read (csv_NewReader d)")
    let ?s1 = "s\<lparr>files := (files s)[k := Some f], readers := (readers s)[k := Some r']\<rparr>"
    show ?thesis
    proof (cases rr)
      case (Inl er)
      show ?thesis
      proof (cases "er = EOF")
        case True
        with Cons.prems o Inr fd r Inl have "setupMerge_loop L ?s1 w1 (enumerate (Suc k) ps) = (e, s', w')"
          by simp
        from Cons.IH [OF weaken this] show ?thesis by simp
      next
        case False
        with Cons.prems o Inr fd r Inl have "s' = ?s1" by simp
        then show ?thesis using h by (auto simp: loop_inv_def intro: less_le_trans [of _ k])
      qed
    next
      case (Inr rc)
      let ?x = "\<lparr>item_row = recordToRow L s rc, fileIndex = k\<rparr>"
      let ?s2 = "s\<lparr>files := (files s)[k := Some f], readers := (readers s)[k := Some r'],
                   merge_heap := map_option (\<lambda>h. mergeHeap_push h ?x) (merge_heap s)\<rparr>"
      have "loop_inv (Suc k) ?s2"
        using h by (auto simp: loop_inv_def push_distinct push_set intro: less_SucI)
      moreover from Cons.prems o \<open>ro = Inr fd\<close> fd r Inr
      have "setupMerge_loop L ?s2 w1 (enumerate (Suc k) ps) = (e, s', w')" by simp
      ultimately show ?thesis using Cons.IH [of "Suc k" ?s2 w1] by simp
    qed
  qed
qed

lemma setupMerge_inv:
  assumes "one_row_per_run s" "setupMerge L s w = (e, s', w')"
  shows "one_row_per_run s' \<and> tempFiles s' = tempFiles s"
proof (cases "tempFiles s = []")
  case True
  with assms show ?thesis by (auto simp: setupMerge_def one_row_per_run_def split: option.splits)
next
  case False
  let ?h0 = "\<lparr>items = [], heap_columnIndex = columnIndex s, heap_desc = desc s\<rparr>"
  let ?s1 = "s\<lparr>readers := replicate (length (tempFiles s)) None,
               files := replicate (length (tempFiles s)) None,
               merge_heap := Some (?h0\<lparr>items := heap_Init (mergeHeap_Less ?h0) (items ?h0)\<rparr>)\<rparr>"
  have "loop_inv 0 ?s1" by (simp add: loop_inv_def heap_Init_def)
  moreover have "setupMerge_loop L ?s1 w (enumerate 0 (tempFiles s)) = (e, s', w')"
    using assms(2) False by (simp add: setupMerge_def Let_def)
  ultimately have "loop_inv (length (tempFiles s)) s' \<and> tempFiles s' = tempFiles s"
    using setupMerge_loop_inv [of 0 ?s1 L w "tempFiles s" e s' w'] by simp
  then show ?thesis by (auto simp: loop_inv_def one_row_per_run_def)
qed

lemma prepare_inv:
  assumes "one_row_per_run s" "prepare L s inp w = (e, s', inp', w')"
  shows "one_row_per_run s'"
proof (cases "prepared s")
  case True
  with assms show ?thesis by (simp add: prepare_def)
next
  case False
  show ?thesis
  proof (cases "chunkSize s < 0")
    case True
    with assms False show ?thesis by (simp add: prepare_def)
  next
    case nonneg: False
    obtain e1 s1 chunk inp1 w1 where pl: "prepare_loop L s [] inp w = (e1, s1, chunk, inp1, w1)"
      by (metis prod_cases5)
    have i1: "one_row_per_run s1" using run_ext_inv [OF prepare_loop_ext [OF pl] assms(1)] .
    show ?thesis
    proof (cases e1)
      case (Some a)
      with assms(2) False nonneg pl have "s' = s1" by (simp add: prepare_def)
      with i1 show ?thesis by simp
    next
      case None
      obtain e2 s2 w2 where fl: "(if length chunk > 0 then flushChunk L s1 chunk w1 else (None, s1, w1)) = (e2, s2, w2)"
        by (metis prod_cases3)
      have "run_ext s1 s2" using fl flushChunk_ext [of L s1 chunk w1 e2 s2 w2]
        by (auto simp: run_ext_refl split: if_splits)
      then have i2: "one_row_per_run s2" using i1 by (rule run_ext_inv)
      show ?thesis
      proof (cases e2)
        case (Some a)
        with assms(2) False nonneg pl None fl have "s' = s2" by (simp add: prepare_def)
        with i2 show ?thesis by simp
      next
        case None2: None
        obtain e3 s3 w3 where sm: "setupMerge L s2 w2 = (e3, s3, w3)" by (metis prod_cases3)
        have i3: "one_row_per_run s3" using setupMerge_inv [OF i2 sm] by simp
        have "s' = s3 \<or> s' = s3\<lparr>prepared := True\<rparr>"
          using assms(2) False nonneg pl None fl None2 sm by (cases e3) (simp_all add: prepare_def)
        with i3 show ?thesis by (auto simp: one_row_per_run_def split: option.splits)
      qed
    qed
  qed
qed

lemma merge_next_inv:
  assumes "one_row_per_run s" "merge_next L s = (res, s')"
  shows "one_row_per_run s' \<and> heap_size s' \<le> heap_size s \<and> tempFiles s' = tempFiles s"
proof (cases "merge_heap s")
  case None
  with assms show ?thesis by (simp add: merge_next_def)
next
  case (Some h)
  show ?thesis
  proof (cases "exhausted s \<or> mergeHeap_Len h = 0")
    case True
    with assms Some show ?thesis by (auto simp: merge_next_def)
  next
    case False
    then have ne: "items h \<noteq> []" by (simp add: mergeHeap_Len_def)
    obtain item rest where pop: "heap_Pop (mergeHeap_Less h) (items h) = (item, rest)"
      by (cases "heap_Pop (mergeHeap_Less h) (items h)")
    from heap_Pop_mset [OF ne pop]
    have ms: "mset (items h) = mset rest + {#item#}" and len: "length rest = length (items h) - 1" by simp_all
    from assms(1) Some have d: "distinct (map fileIndex (items h))"
      and b: "\<forall>it \<in> set (items h). fileIndex it < length (tempFiles s)"
      by (simp_all add: one_row_per_run_def)
    have ms': "mset (items h) = mset (item # rest)" using ms by simp
    then have "mset (map fileIndex (items h)) = mset (map fileIndex (item # rest))"
      by (metis mset_map)
    from mset_eq_imp_distinct_iff [OF this] d
    have d': "distinct (map fileIndex rest)" and notin: "fileIndex item \<notin> fileIndex ` set rest" by simp_all
    have sub: "set (items h) = insert item (set rest)"
      using mset_eq_setD [OF ms'] by simp
    let ?h1 = "h\<lparr>items := rest\<rparr>"
    let ?s1 = "s\<lparr>merge_heap := Some ?h1\<rparr>"
    have inv1: "one_row_per_run ?s1" using d' b sub by (simp add: one_row_per_run_def)
    have size1: "heap_size ?s1 \<le> heap_size s" using len Some by (simp add: heap_size_def)
    have upd: "one_row_per_run (?s1\<lparr>readers := rs\<rparr>) \<and> heap_size (?s1\<lparr>readers := rs\<rparr>) \<le> heap_size s
         \<and> tempFiles (?s1\<lparr>readers := rs\<rparr>) = tempFiles s" for rs
      using inv1 size1 by (simp add: one_row_per_run_def heap_size_def)
    have pushed: "one_row_per_run (?s1\<lparr>readers := rs, merge_heap := Some (mergeHeap_push ?h1 \<lparr>item_row = r, fileIndex = fileIndex item\<rparr>)\<rparr>)
         \<and> heap_size (?s1\<lparr>readers := rs, merge_heap := Some (mergeHeap_push ?h1 \<lparr>item_row = r, fileIndex = fileIndex item\<rparr>)\<rparr>) \<le> heap_size s"
      for rs r
      using d' notin b sub len ne Some
      by (auto simp: one_row_per_run_def heap_size_def push_distinct push_set length_items_push)
    show ?thesis
    proof (cases "fileIndex item \<ge> length (readers ?s1)")
      case True
      with assms(2) Some False pop have "s' = ?s1" by (simp add: merge_next_def Let_def)
      with inv1 size1 show ?thesis by simp
    next
      case inrange: False
      show ?thesis
      proof (cases "readers ?s1 ! fileIndex item")
        case None
        with assms(2) Some False pop inrange have "s' = ?s1" by (simp add: merge_next_def Let_def)
        with inv1 size1 show ?thesis by simp
      next
        case (Some r)
        obtain rr r' where rd: "csv_Read r = (rr, r')" by (cases "csv_Read r")
        show ?thesis
        proof (cases rr)
          case (Inl er)
          with assms(2) \<open>merge_heap s = Some h\<close> False pop inrange Some rd
          have "s' = ?s1\<lparr>readers := (readers ?s1)[fileIndex item := Some r']\<rparr>"
            by (simp add: merge_next_def Let_def split: if_splits)
          with upd show ?thesis by simp
        next
          case (Inr rc)
          with assms(2) \<open>merge_heap s = Some h\<close> False pop inrange Some rd
          have "s' = ?s1\<lparr>readers := (readers ?s1)[fileIndex item := Some r'],
                   merge_heap := Some (mergeHeap_push ?h1 \<lparr>item_row = recordToRow L s rc, fileIndex = fileIndex item\<rparr>)\<rparr>"
            by (simp add: merge_next_def Let_def)
          with pushed show ?thesis by simp
        qed
      qed
    qed
  qed
qed

lemma SortOp_Next_inv:
  assumes "one_row_per_run s"
  shows "one_row_per_run (fst (snd (SortOp_Next L s inp w)))"
proof -
  obtain e s1 inp1 w1 where p: "prepare L s inp w = (e, s1, inp1, w1)" by (metis prod_cases4)
  have i1: "one_row_per_run s1" by (rule prepare_inv [OF assms p])
  show ?thesis
  proof (cases e)
    case (Some a)
    with p i1 show ?thesis by (simp add: SortOp_Next_def)
  next
    case None
    obtain res s2 where m: "merge_next L s1 = (res, s2)" by (cases "merge_next L s1")
    from merge_next_inv [OF i1 m] p None m show ?thesis by (simp add: SortOp_Next_def)
  qed
qed

lemma sort_step_inv: "one_row_per_run (fst c) \<Longrightarrow> one_row_per_run (fst (sort_step L c))"
  using SortOp_Next_inv by (cases c) (simp add: sort_step_def)

text \<open>
  C3. After any number of \<open>Next\<close> calls on a fresh sort operator, over any input and disk, the merge heap holds at most one buffered row per temporary run file, so it has no more entries than there are runs; and a step of the merge phase (pop one row, push at most one row of the same run) never makes the heap larger.
\<close>

theorem sort_heap_one_row_per_run:
  "one_row_per_run (fst ((sort_step L ^^ n) (NewSortOpWithChunkSize sch col dsc chunk, inp, w))) \<and>
   heap_size (fst ((sort_step L ^^ n) (NewSortOpWithChunkSize sch col dsc chunk, inp, w)))
     \<le> length (tempFiles (fst ((sort_step L ^^ n) (NewSortOpWithChunkSize sch col dsc chunk, inp, w)))) \<and>
   (one_row_per_run s \<longrightarrow> heap_size (snd (merge_next L s)) \<le> heap_size s)"
proof -
  have "one_row_per_run (fst ((sort_step L ^^ n) (NewSortOpWithChunkSize sch col dsc chunk, inp, w)))"
  proof (induction n)
    case 0
    show ?case by (simp add: one_row_per_run_def NewSortOpWithChunkSize_def)
  next
    case (Suc n)
    then show ?case by (simp add: sort_step_inv)
  qed
  moreover have "heap_size (snd (merge_next L s)) \<le> heap_size s" if "one_row_per_run s"
    using merge_next_inv [OF that, of L "fst (merge_next L s)" "snd (merge_next L s)"] by simp
  ultimately show ?thesis using one_row_per_run_bound by blast
qed

lemmas eval_simps = sort_start_def three_rows_def empty_world_def int_schema_def
  NewSortOpWithChunkSize_def sort_step_def sort_result_def SortOp_Next_def prepare_def
  flushChunk_def setupMerge_def merge_next_def mergeHeap_push_def mergeHeap_Len_def
  mergeHeap_Less_def sort_less_def compareRows_def heap_Push_def heap_Pop_def heap_Init_def
  heap_up.simps heap_down.simps swap_def rowToRecord_def recordToRow_def parse_fields_def
  parseValue_def os_Open_def csv_Read_def csv_NewReader_def example_lib_def
  FormatInt_def digits.simps digit_char_def ParseInt_def ParseUint_def digit_of_def Let_def
  Sprint_v_def csv_text_def

text \<open>
  In the scenario, after the first \<open>Next\<close> there are two runs and one buffered row (the second run is used up).
\<close>

theorem sort_heap_one_row_per_run_witness:
  "one_row_per_run (fst (sort_step example_lib sort_start)) \<and>
   heap_size (fst (sort_step example_lib sort_start)) = 1 \<and>
   length (tempFiles (fst (sort_step example_lib sort_start))) = 2 \<and>
   heap_size (snd (merge_next example_lib (fst (sort_step example_lib sort_start))))
     \<le> heap_size (fst (sort_step example_lib sort_start))"
proof -
  have a: "heap_size (fst (sort_step example_lib sort_start)) = 1"
    by (simp add: heap_size_def eval_simps)
  have b: "length (tempFiles (fst (sort_step example_lib sort_start))) = 2"
    by (simp add: eval_simps)
  from sort_heap_one_row_per_run [where L = example_lib and n = "Suc 0" and sch = int_schema
      and col = 1 and dsc = True and chunk = 2 and inp = "map Inr three_rows" and w = empty_world
      and s = "fst (sort_step example_lib sort_start)"]
  show ?thesis using a b by (simp add: sort_start_def)
qed

section \<open>Close\<close>

lemma example_scan_new: "NewCSVScan example_lib ''f.csv'' scan_world = (Inr example_scan, opened_world)"
  by (simp add: opened_world_def example_scan_def NewCSVScan_def scan_world_def os_Open_def
      csv_Read_def csv_NewReader_def inferType_def example_lib_def ParseInt_def ParseUint_def digit_of_def)

lemma open_files_File_Close: "open_files (snd (File_Close f w)) \<subseteq> open_files w"
  by (auto simp: File_Close_def)

lemma open_files_close_files: "open_files (close_files fs w) \<subseteq> open_files w"
  unfolding close_files_def
proof (induction fs arbitrary: w)
  case Nil
  show ?case by simp
next
  case (Cons f fs)
  show ?case
  proof (cases f)
    case None
    then show ?thesis using Cons [of w] by simp
  next
    case (Some fd)
    then show ?thesis
      using Cons [of "snd (File_Close fd w)"] open_files_File_Close [of fd w] by auto
  qed
qed

lemma open_files_remove_files: "open_files (remove_files ps w) = open_files w"
  unfolding remove_files_def
  by (induction ps arbitrary: w) (auto simp: os_Remove_def)

lemma close_first:
  "scan_open op w \<Longrightarrow> \<exists>w1. Operator_Close op w = (None, w1) \<and> scan_closed op w1"
proof (induction op arbitrary: w)
  case (OpCSVScan s)
  then show ?case
    by (auto simp: scan_open_def scan_closed_def CSVScan_Close_def File_Close_def split: option.splits)
next
  case (OpSort s inp)
  then have "scan_open inp w" by (simp add: scan_open_def)
  from OpSort.IH [OF this] obtain w1 where w1: "Operator_Close inp w = (None, w1)" "scan_closed inp w1"
    by blast
  have "open_files (remove_files (tempFiles s) (close_files (files s) w1)) \<subseteq> open_files w1"
    using open_files_close_files open_files_remove_files by simp
  with w1 show ?case by (auto simp: scan_closed_def split: option.splits)
qed (simp_all add: scan_open_def scan_closed_def)

lemma close_again:
  "scan_closed op w \<Longrightarrow> Operator_Close op w = (Some ErrClosed, w)"
proof (induction op arbitrary: w)
  case (OpCSVScan s)
  then show ?case
    by (auto simp: scan_closed_def CSVScan_Close_def File_Close_def split: option.splits)
next
  case (OpSort s inp)
  then have "scan_closed inp w" by (simp add: scan_closed_def)
  from OpSort.IH [OF this] show ?case by simp
qed (simp_all add: scan_closed_def)

text \<open>
  C4, as stated, fails: on a freshly built tree the second of two \<open>Close\<close> calls returns an error.
\<close>

theorem close_twice_counterexample:
  "fst (Operator_Close example_tree (snd (Operator_Close example_tree opened_world))) = Some ErrClosed"
  by (simp add: example_tree_def opened_world_def example_scan_def NewCSVScan_def scan_world_def os_Open_def
      csv_Read_def csv_NewReader_def CSVScan_Close_def File_Close_def NewSortOpWithChunkSize_def
      close_files_def remove_files_def)

text \<open>
  C4, amended. For every operator tree whose scan holds an open file, in any state and so also before any \<open>Next\<close>, \<open>Close\<close> returns no error; a second \<open>Close\<close> right after it returns the file's \<open>ErrClosed\<close>, passed up unchanged by every wrapping operator, and changes nothing in the world: no descriptor is closed and no temporary file removed a second time.
\<close>

theorem close_once_then_error:
  assumes "scan_open op w"
  shows "\<exists>w1. Operator_Close op w = (None, w1) \<and> Operator_Close op w1 = (Some ErrClosed, w1)"
  using close_first [OF assms] close_again by blast

theorem close_once_then_error_witness:
  "scan_open example_tree opened_world \<and>
   fst (Operator_Close example_tree opened_world) = None \<and>
   Operator_Close example_tree (snd (Operator_Close example_tree opened_world))
     = (Some ErrClosed, snd (Operator_Close example_tree opened_world))"
proof -
  have o: "scan_open example_tree opened_world"
    by (simp add: scan_open_def example_tree_def opened_world_def example_scan_def NewCSVScan_def
        scan_world_def os_Open_def csv_Read_def csv_NewReader_def)
  from close_once_then_error [OF o] o show ?thesis by auto
qed

end
